theory Spec2Isabelle
  imports Main "HOL-Library.Sublist"
begin

section \<open>The topic content loader of discourse-topic-thumbnails\<close>

text \<open>
  A shallow embedding of \<^verbatim>\<open>javascripts/discourse/services/topic-content-loader.js\<close>:
  the image extractor \<^verbatim>\<open>extractImagesFromHtml\<close> and the throttled, caching loader
  (\<^verbatim>\<open>loadTopicImages\<close>, \<^verbatim>\<open>_processQueue\<close>, \<^verbatim>\<open>_loadTopicImagesInternal\<close>,
  \<^verbatim>\<open>_cleanExpiredCache\<close>, \<^verbatim>\<open>_isCacheValid\<close>).

  Strings are \<^typ>\<open>string\<close>, read as UTF-8 byte sequences. The browser's HTML parser
  (\<^verbatim>\<open>innerHTML\<close> followed by \<^verbatim>\<open>querySelectorAll("img")\<close>) and
  \<^verbatim>\<open>window.location.origin\<close> are not code of the repository: they are parameters.
  Topic ids and the image limit are natural numbers; clock readings, delays and the
  counters of the service are integers.
\<close>

subsection \<open>JavaScript string and truthiness helpers\<close>

definition js_includes :: "string \<Rightarrow> string \<Rightarrow> bool" where
  \<comment> \<open>\<^verbatim>\<open>s.includes(t)\<close>: \<^verbatim>\<open>t\<close> occurs in \<^verbatim>\<open>s\<close> as a contiguous run.\<close>
  "js_includes s t = sublist t s"

definition js_startsWith :: "string \<Rightarrow> string \<Rightarrow> bool" where
  "js_startsWith s t = prefix t s"

fun truthy :: "string option \<Rightarrow> bool" where
  \<comment> \<open>an attribute value or JSON string: \<^verbatim>\<open>null\<close>/\<^verbatim>\<open>undefined\<close> and \<^verbatim>\<open>""\<close> are falsy\<close>
  "truthy None = False"
| "truthy (Some s) = (s \<noteq> [])"

definition js_or :: "string option \<Rightarrow> string option \<Rightarrow> string option" where
  \<comment> \<open>\<^verbatim>\<open>a || b\<close>\<close>
  "js_or a b = (if truthy a then a else b)"

subsection \<open>The extractor\<close>

text \<open>
  An \<^verbatim>\<open>img\<close> element, as far as the code reads it: the three attributes it asks
  \<^verbatim>\<open>getAttribute\<close> for (\<open>None\<close> when the attribute is absent).
\<close>

record img =
  alt :: "string option"
  src :: "string option"
  data_src :: "string option"

definition cover_marker :: string where
  \<comment> \<open>the literal of line 36, U+5C01 U+9762 U+56FE, in UTF-8\<close>
  "cover_marker = [CHR 0xE5, CHR 0xB0, CHR 0x81, CHR 0xE9, CHR 0x9D, CHR 0xA2,
                   CHR 0xE5, CHR 0x9B, CHR 0xBE]"

definition resolve_url :: "string \<Rightarrow> string \<Rightarrow> string" where
  \<comment> \<open>lines 39-43 and 65-69\<close>
  "resolve_url origin s = (if js_startsWith s ''/'' then origin @ s else s)"

definition passes_filter :: "string \<Rightarrow> bool" where
  \<comment> \<open>lines 46-51 and 72-77\<close>
  "passes_filter imageUrl \<longleftrightarrow>
     \<not> js_includes imageUrl ''/images/emoji/'' \<and>
     \<not> js_includes imageUrl ''/images/'' \<and>
     \<not> js_includes imageUrl ''avatar'' \<and>
     \<not> js_includes imageUrl ''user_avatar''"

definition image_url :: "string \<Rightarrow> img \<Rightarrow> string option" where
  \<comment> \<open>the block both loops share: read \<^verbatim>\<open>src || data-src\<close>, resolve it, filter it\<close>
  "image_url origin i =
     (case js_or (src i) (data_src i) of
        None \<Rightarrow> None
      | Some s \<Rightarrow>
          if s \<noteq> [] then
            (let imageUrl = resolve_url origin s
             in if passes_filter imageUrl then Some imageUrl else None)
          else None)"

definition alt_text :: "img \<Rightarrow> string" where
  \<comment> \<open>\<^verbatim>\<open>img.getAttribute("alt") || ""\<close>\<close>
  "alt_text i = (case js_or (alt i) (Some []) of None \<Rightarrow> [] | Some a \<Rightarrow> a)"

fun cover_loop :: "string \<Rightarrow> img list \<Rightarrow> string list option" where
  \<comment> \<open>the first loop (lines 32-56); \<open>Some r\<close> is its \<^verbatim>\<open>return r\<close>, \<open>None\<close> is falling through\<close>
  "cover_loop origin [] = None"
| "cover_loop origin (i # is) =
     (if js_includes (alt_text i) cover_marker then
        (case image_url origin i of
           Some imageUrl \<Rightarrow> Some [imageUrl]
         | None \<Rightarrow> cover_loop origin is)
      else cover_loop origin is)"

fun general_loop :: "string \<Rightarrow> img list \<Rightarrow> nat \<Rightarrow> string list" where
  \<comment> \<open>the second loop (lines 59-81): \<^verbatim>\<open>i\<close> runs below \<^verbatim>\<open>Math.min(images.length, maxImages)\<close>;
      the third argument is the number of indices still to visit\<close>
  "general_loop origin [] n = []"
| "general_loop origin (i # is) 0 = []"
| "general_loop origin (i # is) (Suc n) =
     (case image_url origin i of
        Some imageUrl \<Rightarrow> imageUrl # general_loop origin is n
      | None \<Rightarrow> general_loop origin is n)"

definition extractImages :: "string \<Rightarrow> img list \<Rightarrow> nat \<Rightarrow> string list" where
  \<comment> \<open>lines 31-83, on the node list \<^verbatim>\<open>images\<close>\<close>
  "extractImages origin images maxImages =
     (case cover_loop origin images of
        Some r \<Rightarrow> r
      | None \<Rightarrow> general_loop origin images maxImages)"

definition extractImagesFromHtml ::
  "(string \<Rightarrow> img list) \<Rightarrow> string \<Rightarrow> string \<Rightarrow> nat \<Rightarrow> string list" where
  \<comment> \<open>\<open>querySelectorAll_img html\<close> is the list \<^verbatim>\<open>tempDiv.querySelectorAll("img")\<close> after
      \<^verbatim>\<open>tempDiv.innerHTML = html\<close>, in document order\<close>
  "extractImagesFromHtml querySelectorAll_img origin html maxImages =
     (if html = [] then []
      else extractImages origin (querySelectorAll_img html) maxImages)"

text \<open>What the claims call an eligible image, and a cover image.\<close>

definition is_cover :: "string \<Rightarrow> img \<Rightarrow> bool" where
  "is_cover origin i \<longleftrightarrow> js_includes (alt_text i) cover_marker \<and> image_url origin i \<noteq> None"

subsection \<open>The loader: data\<close>

type_synonym topic_id = nat
type_synonym promise = nat

record cache_entry =
  images :: "string list"
  timestamp :: int

text \<open>
  A queue entry \<^verbatim>\<open>{ topicId, resolve, reject }\<close>. The two callbacks belong to the promise
  that \<^verbatim>\<open>loadTopicImages\<close> returned; \<open>settles\<close> names that promise.
\<close>

record queued =
  topicId :: topic_id
  settles :: promise

datatype error =
    RateLimitExceeded       \<comment> \<open>\<^verbatim>\<open>new Error("Rate limit exceeded")\<close>, line 105\<close>
  | HttpError nat           \<comment> \<open>\<^verbatim>\<open>new Error(`HTTP error! status: ${response.status}`)\<close>, line 107\<close>
  | FetchFailed             \<comment> \<open>\<^verbatim>\<open>fetch\<close> rejects (network failure)\<close>
  | JsonFailed              \<comment> \<open>\<^verbatim>\<open>response.json()\<close> rejects\<close>
  | TypeError               \<comment> \<open>a property read on \<^verbatim>\<open>null\<close>\<close>

datatype settlement = Resolved "string list" | Rejected error

text \<open>
  What \<^verbatim>\<open>fetch\<close> and \<^verbatim>\<open>response.json()\<close> can deliver. The body has the shape lines
  114-116 read; \<open>JsonNull\<close> and \<open>PostNull\<close> are a JSON \<^verbatim>\<open>null\<close> in the place of the
  object, on which the property read throws.
\<close>

datatype fetch_result = FetchRejects | Response nat

datatype post = PostNull | Post "string option"
datatype post_stream = PostStream "post list option"
datatype topic_json = JsonNull | TopicJson "post_stream option"

datatype json_result = JsonRejects | JsonValue topic_json

definition response_ok :: "nat \<Rightarrow> bool" where
  \<comment> \<open>\<^verbatim>\<open>response.ok\<close>: the status is in the range 200-299\<close>
  "response_ok status \<longleftrightarrow> 200 \<le> status \<and> status \<le> 299"

text \<open>
  A call of \<^verbatim>\<open>_processQueue\<close> that took a request is suspended at one of three
  \<^verbatim>\<open>await\<close>s: the timer of line 151 (with the delay it was started with), the
  \<^verbatim>\<open>fetch\<close> of line 92, or \<^verbatim>\<open>response.json()\<close> of line 110.
\<close>

datatype phase = Delaying int | Fetching | Parsing

datatype task = Task (task_promise: promise) (task_topic: topic_id) (task_phase: phase)

text \<open>What the loader does that an observer sees, in the order it happens.\<close>

datatype action =
    Enqueued promise topic_id       \<comment> \<open>\<^verbatim>\<open>requestQueue.push\<close>, line 205\<close>
  | Dispatched promise topic_id     \<comment> \<open>\<^verbatim>\<open>requestQueue.shift\<close>, line 146\<close>
  | FetchIssued promise topic_id    \<comment> \<open>\<^verbatim>\<open>fetch\<close>, line 92\<close>
  | ConsoleError topic_id error     \<comment> \<open>\<^verbatim>\<open>console.error\<close>, line 131\<close>
  | Settled promise settlement      \<comment> \<open>\<^verbatim>\<open>resolve\<close>, \<^verbatim>\<open>reject\<close>, or the return of line 195\<close>

text \<open>
  The fields of the service (lines 9-19), then the runtime around it: the suspended
  tasks, the next fresh promise, and the trace of actions.
\<close>

record loader =
  requestQueue :: "queued list"
  activeRequests :: int
  maxConcurrent :: int
  requestDelay :: int
  imageCache :: "topic_id \<rightharpoonup> cache_entry"
  cacheExpiry :: int
  tasks :: "task list"
  nextPromise :: promise
  trace :: "action list"

definition init :: loader where
  "init = \<lparr> requestQueue = [], activeRequests = 0, maxConcurrent = 1, requestDelay = 300,
            imageCache = Map.empty, cacheExpiry = 5 * 60 * 1000,
            tasks = [], nextPromise = 0, trace = [] \<rparr>"

record env =
  location_origin :: string                         \<comment> \<open>\<^verbatim>\<open>window.location.origin\<close>\<close>
  querySelectorAll_img :: "string \<Rightarrow> img list"       \<comment> \<open>the browser's HTML parser\<close>

definition emit :: "action \<Rightarrow> loader \<Rightarrow> loader" where
  "emit a s = s\<lparr>trace := trace s @ [a]\<rparr>"

definition find_task :: "promise \<Rightarrow> loader \<Rightarrow> task option" where
  "find_task p s = find (\<lambda>t. task_promise t = p) (tasks s)"

definition set_phase :: "promise \<Rightarrow> phase \<Rightarrow> loader \<Rightarrow> loader" where
  "set_phase p ph s =
     s\<lparr>tasks := map (\<lambda>t. if task_promise t = p then Task p (task_topic t) ph else t) (tasks s)\<rparr>"

subsection \<open>The loader: operations\<close>

definition processQueue :: "loader \<Rightarrow> loader" where
  \<comment> \<open>lines 139-151, up to the first \<^verbatim>\<open>await\<close>\<close>
  "processQueue s =
     (case requestQueue s of
        [] \<Rightarrow> s
      | q # rest \<Rightarrow>
          if activeRequests s \<ge> maxConcurrent s then s
          else emit (Dispatched (settles q) (topicId q))
                 (s\<lparr>requestQueue := rest,
                    activeRequests := activeRequests s + 1,
                    tasks := tasks s @ [Task (settles q) (topicId q) (Delaying (requestDelay s))]\<rparr>))"

definition on_response :: "fetch_result \<Rightarrow> loader \<Rightarrow> (error + unit) \<times> loader" where
  \<comment> \<open>lines 92-108 after the \<^verbatim>\<open>fetch\<close> settles; \<open>Inl e\<close> is \<^verbatim>\<open>throw e\<close>,
      \<open>Inr ()\<close> goes on to \<^verbatim>\<open>await response.json()\<close>\<close>
  "on_response r s =
     (case r of
        FetchRejects \<Rightarrow> (Inl FetchFailed, s)
      | Response status \<Rightarrow>
          if \<not> response_ok status then
            (if status = 429 then
               (Inl RateLimitExceeded,
                s\<lparr>requestDelay := min (requestDelay s * 2) 5000, maxConcurrent := 1\<rparr>)
             else (Inl (HttpError status), s))
          else (Inr (), s))"

definition first_post_images :: "env \<Rightarrow> topic_json \<Rightarrow> error + string list" where
  \<comment> \<open>lines 111-122\<close>
  "first_post_images env result =
     (case result of
        JsonNull \<Rightarrow> Inl TypeError
      | TopicJson None \<Rightarrow> Inr []
      | TopicJson (Some (PostStream None)) \<Rightarrow> Inr []
      | TopicJson (Some (PostStream (Some []))) \<Rightarrow> Inr []
      | TopicJson (Some (PostStream (Some (firstPost # _)))) \<Rightarrow>
          (case firstPost of
             PostNull \<Rightarrow> Inl TypeError
           | Post None \<Rightarrow> Inr []
           | Post (Some cooked) \<Rightarrow>
               if cooked \<noteq> [] then
                 Inr (extractImagesFromHtml (querySelectorAll_img env) (location_origin env) cooked 3)
               else Inr []))"

definition on_json :: "env \<Rightarrow> topic_id \<Rightarrow> json_result \<Rightarrow> int \<Rightarrow> loader
                        \<Rightarrow> (error + string list) \<times> loader" where
  \<comment> \<open>lines 110-129 after \<^verbatim>\<open>response.json()\<close> settles; \<open>now\<close> is \<^verbatim>\<open>Date.now()\<close> of line 127\<close>
  "on_json env tid j now s =
     (case j of
        JsonRejects \<Rightarrow> (Inl JsonFailed, s)
      | JsonValue result \<Rightarrow>
          (case first_post_images env result of
             Inl e \<Rightarrow> (Inl e, s)
           | Inr imgs \<Rightarrow>
               (Inr imgs,
                s\<lparr>imageCache := (imageCache s)(tid \<mapsto> \<lparr>images = imgs, timestamp = now\<rparr>)\<rparr>)))"

definition catch_internal :: "topic_id \<Rightarrow> (error + string list) \<times> loader
                               \<Rightarrow> (error + string list) \<times> loader" where
  \<comment> \<open>the \<^verbatim>\<open>catch\<close> of lines 130-133; the result is how the promise of
      \<^verbatim>\<open>_loadTopicImagesInternal\<close> settles (\<open>Inl\<close>: it rejects)\<close>
  "catch_internal tid r =
     (case r of
        (Inl e, s) \<Rightarrow> (Inr [], emit (ConsoleError tid e) s)
      | (Inr imgs, s) \<Rightarrow> (Inr imgs, s))"

definition settle :: "promise \<Rightarrow> error + string list \<Rightarrow> loader \<Rightarrow> loader" where
  \<comment> \<open>lines 153-161 after \<^verbatim>\<open>_loadTopicImagesInternal\<close> settles: \<^verbatim>\<open>resolve\<close> or
      \<^verbatim>\<open>reject\<close>, then the \<^verbatim>\<open>finally\<close> block\<close>
  "settle p r s =
     (let s1 = (case r of
                  Inr imgs \<Rightarrow> emit (Settled p (Resolved imgs)) s
                | Inl e \<Rightarrow> emit (Settled p (Rejected e)) s);
          s2 = s1\<lparr>activeRequests := activeRequests s1 - 1,
                  tasks := filter (\<lambda>t. task_promise t \<noteq> p) (tasks s1)\<rparr>
      in processQueue s2)"

definition isCacheValid :: "int \<Rightarrow> loader \<Rightarrow> cache_entry option \<Rightarrow> bool" where
  \<comment> \<open>lines 167-171\<close>
  "isCacheValid now s cacheEntry =
     (case cacheEntry of
        None \<Rightarrow> False
      | Some e \<Rightarrow> now - timestamp e < cacheExpiry s)"

definition cleanExpiredCache :: "int \<Rightarrow> loader \<Rightarrow> loader" where
  \<comment> \<open>lines 176-183\<close>
  "cleanExpiredCache now s =
     s\<lparr>imageCache :=
         (\<lambda>k. case imageCache s k of
                 None \<Rightarrow> None
               | Some e \<Rightarrow> if now - timestamp e \<ge> cacheExpiry s then None else Some e)\<rparr>"

definition loadTopicImages :: "topic_id \<Rightarrow> int \<Rightarrow> int \<Rightarrow> loader \<Rightarrow> loader" where
  \<comment> \<open>lines 188-208; \<open>now1\<close> and \<open>now2\<close> are the two readings of \<^verbatim>\<open>Date.now()\<close>
      (lines 177 and 169); the promise returned is \<open>nextPromise s\<close>\<close>
  "loadTopicImages tid now1 now2 s =
     (let p = nextPromise s;
          s1 = (cleanExpiredCache now1 s)\<lparr>nextPromise := p + 1\<rparr>;
          cacheEntry = imageCache s1 tid
      in case cacheEntry of
           Some e \<Rightarrow>
             if isCacheValid now2 s1 cacheEntry then emit (Settled p (Resolved (images e))) s1
             else
               (let s2 = s1\<lparr>imageCache := (imageCache s1)(tid := None)\<rparr>;
                    s3 = emit (Enqueued p tid)
                           (s2\<lparr>requestQueue := requestQueue s2 @ [\<lparr>topicId = tid, settles = p\<rparr>]\<rparr>)
                in processQueue s3)
         | None \<Rightarrow>
             (let s3 = emit (Enqueued p tid)
                         (s1\<lparr>requestQueue := requestQueue s1 @ [\<lparr>topicId = tid, settles = p\<rparr>]\<rparr>)
              in processQueue s3))"

subsection \<open>The event loop\<close>

text \<open>
  One event is one run-to-completion turn of the JavaScript event loop: a call of
  \<^verbatim>\<open>loadTopicImages\<close>, or the settling of the promise a task awaits. An event for a
  task that is not at that \<^verbatim>\<open>await\<close> cannot happen and changes nothing. The
  microtask hops from the return of \<^verbatim>\<open>_loadTopicImagesInternal\<close> to the resumption of
  \<^verbatim>\<open>_processQueue\<close> belong to the turn that settled the awaited promise. The order
  in which timers fire and fetches settle is left open: a property of every run holds
  for every timing.
\<close>

datatype event =
    Call topic_id int int
  | TimerFires promise
  | FetchSettles promise fetch_result
  | JsonSettles promise json_result int

fun step :: "env \<Rightarrow> event \<Rightarrow> loader \<Rightarrow> loader" where
  "step env (Call tid now1 now2) s = loadTopicImages tid now1 now2 s"
| "step env (TimerFires p) s =
     (case find_task p s of
        Some (Task _ tid (Delaying _)) \<Rightarrow> set_phase p Fetching (emit (FetchIssued p tid) s)
      | _ \<Rightarrow> s)"
| "step env (FetchSettles p r) s =
     (case find_task p s of
        Some (Task _ tid Fetching) \<Rightarrow>
          (case on_response r s of
             (Inr _, s1) \<Rightarrow> set_phase p Parsing s1
           | (Inl e, s1) \<Rightarrow>
               (case catch_internal tid (Inl e, s1) of (res, s2) \<Rightarrow> settle p res s2))
      | _ \<Rightarrow> s)"
| "step env (JsonSettles p j now) s =
     (case find_task p s of
        Some (Task _ tid Parsing) \<Rightarrow>
          (case catch_internal tid (on_json env tid j now s) of (res, s1) \<Rightarrow> settle p res s1)
      | _ \<Rightarrow> s)"

definition run :: "env \<Rightarrow> event list \<Rightarrow> loader \<Rightarrow> loader" where
  "run env es s = foldl (\<lambda>s e. step env e s) s es"

text \<open>Readings of the trace.\<close>

fun settled_as :: "promise \<Rightarrow> action list \<Rightarrow> settlement list" where
  "settled_as p [] = []"
| "settled_as p (Settled q x # as) = (if q = p then x # settled_as p as else settled_as p as)"
| "settled_as p (_ # as) = settled_as p as"

fun enqueue_order :: "action list \<Rightarrow> promise list" where
  "enqueue_order [] = []"
| "enqueue_order (Enqueued p _ # as) = p # enqueue_order as"
| "enqueue_order (_ # as) = enqueue_order as"

fun dispatch_order :: "action list \<Rightarrow> promise list" where
  "dispatch_order [] = []"
| "dispatch_order (Dispatched p _ # as) = p # dispatch_order as"
| "dispatch_order (_ # as) = dispatch_order as"

fun fetches :: "action list \<Rightarrow> topic_id list" where
  "fetches [] = []"
| "fetches (FetchIssued _ tid # as) = tid # fetches as"
| "fetches (_ # as) = fetches as"

fun errors_logged :: "action list \<Rightarrow> (topic_id \<times> error) list" where
  "errors_logged [] = []"
| "errors_logged (ConsoleError tid e # as) = (tid, e) # errors_logged as"
| "errors_logged (_ # as) = errors_logged as"

definition in_flight :: "loader \<Rightarrow> nat" where
  \<comment> \<open>the fetches that are out: tasks past the timer\<close>
  "in_flight s = length (filter (\<lambda>t. task_phase t = Fetching \<or> task_phase t = Parsing) (tasks s))"

definition eligible_urls :: "string \<Rightarrow> img list \<Rightarrow> string list" where
  \<comment> \<open>the URLs of the eligible images of a node list, in document order\<close>
  "eligible_urls origin is = List.map_filter (image_url origin) is"

text \<open>The failures of a fetch attempt.\<close>

definition fetch_fails :: "fetch_result \<Rightarrow> bool" where
  \<comment> \<open>a network failure, or a status outside 200-299 (429 among them)\<close>
  "fetch_fails r = (case r of FetchRejects \<Rightarrow> True | Response status \<Rightarrow> \<not> response_ok status)"

definition json_fails :: "env \<Rightarrow> json_result \<Rightarrow> bool" where
  \<comment> \<open>\<^verbatim>\<open>response.json()\<close> rejects, or reading the body throws\<close>
  "json_fails env j =
     (case j of
        JsonRejects \<Rightarrow> True
      | JsonValue v \<Rightarrow> (case first_post_images env v of Inl _ \<Rightarrow> True | Inr _ \<Rightarrow> False))"

definition is_miss :: "topic_id \<Rightarrow> int \<Rightarrow> int \<Rightarrow> loader \<Rightarrow> bool" where
  \<comment> \<open>no entry for the topic, or one that is stale at one of the two clock readings\<close>
  "is_miss tid n1 n2 s \<longleftrightarrow>
     (case imageCache s tid of
        None \<Rightarrow> True
      | Some e \<Rightarrow> cacheExpiry s \<le> n1 - timestamp e \<or> cacheExpiry s \<le> n2 - timestamp e)"

subsection \<open>Invariants\<close>

definition pending :: "loader \<Rightarrow> promise list" where
  \<comment> \<open>the promises not yet settled: those of the tasks, then those of the queue\<close>
  "pending s = map task_promise (tasks s) @ map settles (requestQueue s)"

definition counted :: "loader \<Rightarrow> bool" where
  "counted s \<longleftrightarrow>
     activeRequests s = int (length (tasks s)) \<and>
     maxConcurrent s = 1 \<and>
     activeRequests s \<le> maxConcurrent s \<and>
     distinct (pending s) \<and>
     (\<forall>p\<in>set (pending s). p < nextPromise s) \<and>
     0 \<le> requestDelay s \<and> requestDelay s \<le> 5000"

definition busy_or_empty :: "loader \<Rightarrow> bool" where
  \<comment> \<open>no request waits in the queue while a slot is free\<close>
  "busy_or_empty s \<longleftrightarrow> (requestQueue s \<noteq> [] \<longrightarrow> maxConcurrent s \<le> activeRequests s)"

definition fifo :: "loader \<Rightarrow> bool" where
  "fifo s \<longleftrightarrow>
     dispatch_order (trace s) @ map settles (requestQueue s) = enqueue_order (trace s) \<and>
     distinct (enqueue_order (trace s)) \<and>
     (\<forall>p\<in>set (enqueue_order (trace s)). p < nextPromise s)"

subsection \<open>Concrete inputs for the examples\<close>

definition spec_html :: string where
  \<comment> \<open>the markup of the specification's scenario\<close>
  "spec_html = ''<img alt=\"cover image\" src=\"/a.png\"><img src=\"/b.png\">''"

definition marked_html :: string where
  \<comment> \<open>the second image carries the marker of line 36 in its \<^verbatim>\<open>alt\<close>\<close>
  "marked_html = ''<img src=\"/x.png\"><img alt=\"'' @ cover_marker
                   @ ''\" data-src=\"/a.png\"><img src=\"/b.png\">''"

definition four_html :: string where
  "four_html = ''<img><img src=\"/a.png\"><img src=\"/b.png\"><img src=\"/c.png\">''"

definition plain :: "string \<Rightarrow> img" where
  "plain s = \<lparr>alt = None, src = Some s, data_src = None\<rparr>"

definition example_env :: env where
  \<comment> \<open>the parser is given on the example markups only\<close>
  "example_env =
     \<lparr> location_origin = ''https://forum.example'',
       querySelectorAll_img = (\<lambda>html.
         if html = spec_html then
           [\<lparr>alt = Some ''cover image'', src = Some ''/a.png'', data_src = None\<rparr>, plain ''/b.png'']
         else if html = marked_html then
           [plain ''/x.png'',
            \<lparr>alt = Some cover_marker, src = None, data_src = Some ''/a.png''\<rparr>,
            plain ''/b.png'']
         else if html = four_html then
           [\<lparr>alt = None, src = None, data_src = None\<rparr>,
            plain ''/a.png'', plain ''/b.png'', plain ''/c.png'']
         else []) \<rparr>"

definition body_of :: "string \<Rightarrow> json_result" where
  \<comment> \<open>a well-formed topic body whose first post has the given \<^verbatim>\<open>cooked\<close> markup\<close>
  "body_of html = JsonValue (TopicJson (Some (PostStream (Some [Post (Some html)]))))"

section \<open>Properties of the extractor\<close>

lemma general_loop_eq:
  "general_loop origin is n = eligible_urls origin (take n is)"
  by (induction origin "is" n rule: general_loop.induct)
     (simp_all add: eligible_urls_def List.map_filter_simps split: option.splits)

lemma cover_loop_None_iff:
  "cover_loop origin is = None \<longleftrightarrow> (\<forall>i\<in>set is. \<not> is_cover origin i)"
  by (induction "is") (auto simp: is_cover_def split: option.splits)

lemma cover_loop_first:
  assumes "\<forall>j\<in>set pre. \<not> is_cover origin j"
    and "js_includes (alt_text i) cover_marker" and "image_url origin i = Some u"
  shows "cover_loop origin (pre @ i # post) = Some [u]"
  using assms by (induction pre) (auto simp: is_cover_def split: option.splits)

lemma length_eligible_urls: "length (eligible_urls origin is) \<le> length is"
  by (simp add: eligible_urls_def List.map_filter_def)

text \<open>
  Claim C2, as stated, says that without a cover image the extractor returns the first
  \<open>maxImages\<close> eligible URLs, an ineligible image not consuming the limit. The second loop
  runs over the first \<open>maxImages\<close> image elements instead, eligible or not: on four
  images of which the first has no URL and a limit of 3, it returns two URLs, although
  three are eligible.
\<close>

theorem general_rule_counterexample:
  "cover_loop (location_origin example_env) (querySelectorAll_img example_env four_html) = None
   \<and> extractImagesFromHtml (querySelectorAll_img example_env) (location_origin example_env)
        four_html 3
      = [''https://forum.example/a.png'', ''https://forum.example/b.png'']
   \<and> take 3 (eligible_urls (location_origin example_env)
                (querySelectorAll_img example_env four_html))
      = [''https://forum.example/a.png'', ''https://forum.example/b.png'',
         ''https://forum.example/c.png'']"
  by code_simp

text \<open>
  Claim C2, amended: for markup with no cover-image match and every \<open>maxImages\<close>, the
  extractor looks at the first \<open>maxImages\<close> image elements in document order only and
  returns the URLs of the eligible ones among them, in document order (an image whose
  URL is absent or fails the exclusion filter is skipped, and it consumes the limit);
  the result has at most \<open>maxImages\<close> URLs; and for markup that has at most
  \<open>maxImages\<close> image elements in all, the result is exactly the eligible URLs in
  document order.
\<close>

theorem extract_general_rule:
  assumes "html \<noteq> []" and "\<forall>i\<in>set (parse html). \<not> is_cover origin i"
  shows "extractImagesFromHtml parse origin html maxImages
           = eligible_urls origin (take maxImages (parse html))
         \<and> length (extractImagesFromHtml parse origin html maxImages) \<le> maxImages
         \<and> (length (parse html) \<le> maxImages \<longrightarrow>
              extractImagesFromHtml parse origin html maxImages
                = eligible_urls origin (parse html))"
proof -
  have none: "cover_loop origin (parse html) = None"
    using assms(2) by (simp add: cover_loop_None_iff)
  have eq: "extractImagesFromHtml parse origin html maxImages
              = eligible_urls origin (take maxImages (parse html))"
    using assms(1) none by (simp add: extractImagesFromHtml_def extractImages_def general_loop_eq)
  have "length (eligible_urls origin (take maxImages (parse html))) \<le> maxImages"
    using length_eligible_urls [of origin "take maxImages (parse html)"] by simp
  with eq show ?thesis by simp
qed

theorem extract_general_rule_witness:
  "extractImagesFromHtml (querySelectorAll_img example_env) (location_origin example_env)
     four_html 3
   = eligible_urls (location_origin example_env)
       (take 3 (querySelectorAll_img example_env four_html))
   \<and> eligible_urls (location_origin example_env)
       (take 3 (querySelectorAll_img example_env four_html))
     = [''https://forum.example/a.png'', ''https://forum.example/b.png'']"
proof -
  have h1: "four_html \<noteq> []" by code_simp
  have h2: "\<forall>i\<in>set (querySelectorAll_img example_env four_html).
              \<not> is_cover (location_origin example_env) i"
    by code_simp
  have v: "eligible_urls (location_origin example_env)
       (take 3 (querySelectorAll_img example_env four_html))
     = [''https://forum.example/a.png'', ''https://forum.example/b.png'']"
    by code_simp
  show ?thesis
    using extract_general_rule [where html = four_html
        and parse = "querySelectorAll_img example_env"
        and origin = "location_origin example_env" and maxImages = 3] h1 h2 v
    by simp
qed

text \<open>
  Claim C3, as stated, takes the marker to be the literal \<^verbatim>\<open>cover image\<close>. The literal
  of line 36 is the three characters U+5C01 U+9762 U+56FE: on the markup of the
  specification's scenario the first loop finds nothing and the second returns both URLs.
\<close>

theorem cover_rule_counterexample:
  "js_includes (alt_text (hd (querySelectorAll_img example_env spec_html))) ''cover image''
   \<and> extractImagesFromHtml (querySelectorAll_img example_env) (location_origin example_env)
        spec_html 3
      = [''https://forum.example/a.png'', ''https://forum.example/b.png'']"
  by code_simp

text \<open>
  Claim C3, amended: for markup with an image element whose \<^verbatim>\<open>alt\<close> attribute contains
  the marker of line 36 (U+5C01 U+9762 U+56FE) and whose resolved URL passes the
  exclusion filter, the extractor returns the URL of the first such image as a
  single-element result, whatever \<open>maxImages\<close> is and whatever follows.
\<close>

theorem extract_cover_rule:
  assumes "html \<noteq> []" and "parse html = pre @ i # post"
    and "\<forall>j\<in>set pre. \<not> is_cover origin j"
    and "js_includes (alt_text i) cover_marker" and "image_url origin i = Some u"
  shows "extractImagesFromHtml parse origin html maxImages = [u]"
  using assms(1,2) cover_loop_first [OF assms(3,4,5), of post]
  by (simp add: extractImagesFromHtml_def extractImages_def)

theorem extract_cover_rule_witness:
  "extractImagesFromHtml (querySelectorAll_img example_env) (location_origin example_env)
     marked_html 0 = [''https://forum.example/a.png'']"
proof -
  let ?i = "\<lparr>alt = Some cover_marker, src = None, data_src = Some ''/a.png''\<rparr>"
  have h1: "marked_html \<noteq> []" by code_simp
  have h2: "querySelectorAll_img example_env marked_html
              = [plain ''/x.png''] @ ?i # [plain ''/b.png'']" by code_simp
  have h3: "\<forall>j\<in>set [plain ''/x.png'']. \<not> is_cover (location_origin example_env) j"
    by code_simp
  have h4: "js_includes (alt_text ?i) cover_marker" by code_simp
  have h5: "image_url (location_origin example_env) ?i = Some ''https://forum.example/a.png''"
    by code_simp
  show ?thesis
    using extract_cover_rule [where html = marked_html
        and parse = "querySelectorAll_img example_env"
        and origin = "location_origin example_env" and maxImages = 0
        and pre = "[plain ''/x.png'']" and i = ?i and post = "[plain ''/b.png'']"
        and u = "''https://forum.example/a.png''"] h1 h2 h3 h4 h5
    by blast
qed

section \<open>Properties of the loader\<close>

subsection \<open>Readings of the trace\<close>

lemma settled_as_append [simp]:
  "settled_as p (xs @ ys) = settled_as p xs @ settled_as p ys"
  by (induction p xs rule: settled_as.induct) simp_all

lemma enqueue_order_append [simp]:
  "enqueue_order (xs @ ys) = enqueue_order xs @ enqueue_order ys"
  by (induction xs rule: enqueue_order.induct) simp_all

lemma dispatch_order_append [simp]:
  "dispatch_order (xs @ ys) = dispatch_order xs @ dispatch_order ys"
  by (induction xs rule: dispatch_order.induct) simp_all

lemma fetches_append [simp]: "fetches (xs @ ys) = fetches xs @ fetches ys"
  by (induction xs rule: fetches.induct) simp_all

lemma errors_logged_append [simp]:
  "errors_logged (xs @ ys) = errors_logged xs @ errors_logged ys"
  by (induction xs rule: errors_logged.induct) simp_all

subsection \<open>What each operation touches\<close>

lemma emit_fields [simp]:
  "trace (emit a s) = trace s @ [a]"
  "requestQueue (emit a s) = requestQueue s"
  "activeRequests (emit a s) = activeRequests s"
  "maxConcurrent (emit a s) = maxConcurrent s"
  "requestDelay (emit a s) = requestDelay s"
  "imageCache (emit a s) = imageCache s"
  "cacheExpiry (emit a s) = cacheExpiry s"
  "tasks (emit a s) = tasks s"
  "nextPromise (emit a s) = nextPromise s"
  by (simp_all add: emit_def)

lemma set_phase_fields [simp]:
  "trace (set_phase p ph s) = trace s"
  "requestQueue (set_phase p ph s) = requestQueue s"
  "activeRequests (set_phase p ph s) = activeRequests s"
  "maxConcurrent (set_phase p ph s) = maxConcurrent s"
  "requestDelay (set_phase p ph s) = requestDelay s"
  "imageCache (set_phase p ph s) = imageCache s"
  "cacheExpiry (set_phase p ph s) = cacheExpiry s"
  "nextPromise (set_phase p ph s) = nextPromise s"
  "map task_promise (tasks (set_phase p ph s)) = map task_promise (tasks s)"
  "length (tasks (set_phase p ph s)) = length (tasks s)"
  by (simp_all add: set_phase_def comp_def)

lemma processQueue_frame [simp]:
  "maxConcurrent (processQueue s) = maxConcurrent s"
  "requestDelay (processQueue s) = requestDelay s"
  "imageCache (processQueue s) = imageCache s"
  "cacheExpiry (processQueue s) = cacheExpiry s"
  "nextPromise (processQueue s) = nextPromise s"
  by (simp_all add: processQueue_def split: list.splits)

lemma processQueue_trace:
  "trace (processQueue s) =
     trace s @ (case requestQueue s of
                  [] \<Rightarrow> []
                | q # rest \<Rightarrow> if maxConcurrent s \<le> activeRequests s then []
                             else [Dispatched (settles q) (topicId q)])"
  by (simp add: processQueue_def split: list.splits)

lemma settle_frame [simp]:
  "maxConcurrent (settle p r s) = maxConcurrent s"
  "requestDelay (settle p r s) = requestDelay s"
  "imageCache (settle p r s) = imageCache s"
  "cacheExpiry (settle p r s) = cacheExpiry s"
  "nextPromise (settle p r s) = nextPromise s"
  by (simp_all add: settle_def Let_def split: sum.splits)

lemma catch_internal_Inl [simp]:
  "catch_internal tid (Inl e, s) = (Inr [], emit (ConsoleError tid e) s)"
  by (simp add: catch_internal_def)

lemma catch_internal_Inr [simp]: "catch_internal tid (Inr v, s) = (Inr v, s)"
  by (simp add: catch_internal_def)

lemma catch_internal_resolves: "\<exists>v s'. catch_internal tid r = (Inr v, s')"
  by (cases r) (auto simp: catch_internal_def split: sum.splits)

text \<open>The events, case by case, for a task that is at the \<^verbatim>\<open>await\<close> in question.\<close>

lemma find_holds: "find P xs = Some x \<Longrightarrow> P x \<and> x \<in> set xs"
  by (induction xs) (auto split: if_splits)

lemma find_task_promise: "find_task p s = Some (Task q tid ph) \<Longrightarrow> q = p"
  using find_holds [of "\<lambda>t. task_promise t = p" "tasks s" "Task q tid ph"]
  by (simp add: find_task_def)

lemma step_fetch_fails:
  assumes "find_task p s = Some (Task q tid Fetching)"
  shows "step env (FetchSettles p FetchRejects) s
           = settle p (Inr []) (emit (ConsoleError tid FetchFailed) s)"
    and "\<not> response_ok st \<Longrightarrow> st \<noteq> 429 \<Longrightarrow>
         step env (FetchSettles p (Response st)) s
           = settle p (Inr []) (emit (ConsoleError tid (HttpError st)) s)"
    and "step env (FetchSettles p (Response 429)) s
           = settle p (Inr [])
               (emit (ConsoleError tid RateLimitExceeded)
                  (s\<lparr>requestDelay := min (requestDelay s * 2) 5000, maxConcurrent := 1\<rparr>))"
    and "response_ok st \<Longrightarrow> step env (FetchSettles p (Response st)) s = set_phase p Parsing s"
  using assms by (simp_all add: on_response_def response_ok_def)

lemma step_json:
  assumes "find_task p s = Some (Task q tid Parsing)"
  shows "step env (JsonSettles p JsonRejects now) s
           = settle p (Inr []) (emit (ConsoleError tid JsonFailed) s)"
    and "first_post_images env v = Inl e \<Longrightarrow>
         step env (JsonSettles p (JsonValue v) now) s
           = settle p (Inr []) (emit (ConsoleError tid e) s)"
    and "first_post_images env v = Inr imgs \<Longrightarrow>
         step env (JsonSettles p (JsonValue v) now) s
           = settle p (Inr imgs)
               (s\<lparr>imageCache := (imageCache s)(tid \<mapsto> \<lparr>images = imgs, timestamp = now\<rparr>)\<rparr>)"
  using assms by (simp_all add: on_json_def)

lemma step_timer:
  assumes "find_task p s = Some (Task q tid (Delaying d))"
  shows "step env (TimerFires p) s = set_phase p Fetching (emit (FetchIssued p tid) s)"
  using assms by simp

text \<open>Every event is one of a few shapes.\<close>

lemma step_cases [case_names same call timer ok fail limit success]:
  assumes same: "P s"
    and call: "\<And>tid n1 n2. P (loadTopicImages tid n1 n2 s)"
    and timer: "\<And>p tid d. find_task p s = Some (Task p tid (Delaying d)) \<Longrightarrow>
                  P (set_phase p Fetching (emit (FetchIssued p tid) s))"
    and ok: "\<And>p tid st. find_task p s = Some (Task p tid Fetching) \<Longrightarrow>
                  e = FetchSettles p (Response st) \<Longrightarrow> response_ok st \<Longrightarrow>
                  P (set_phase p Parsing s)"
    and fail: "\<And>p tid ph err. find_task p s = Some (Task p tid ph) \<Longrightarrow>
                  P (settle p (Inr []) (emit (ConsoleError tid err) s))"
    and limit: "\<And>p tid. find_task p s = Some (Task p tid Fetching) \<Longrightarrow>
                  P (settle p (Inr [])
                       (emit (ConsoleError tid RateLimitExceeded)
                          (s\<lparr>requestDelay := min (requestDelay s * 2) 5000,
                             maxConcurrent := 1\<rparr>)))"
    and success: "\<And>p tid imgs now. find_task p s = Some (Task p tid Parsing) \<Longrightarrow>
                  P (settle p (Inr imgs)
                       (s\<lparr>imageCache :=
                            (imageCache s)(tid \<mapsto> \<lparr>images = imgs, timestamp = now\<rparr>)\<rparr>))"
  shows "P (step env e s)"
proof (cases e)
  case (Call tid n1 n2)
  then show ?thesis using call by simp
next
  case (TimerFires p)
  show ?thesis
  proof (cases "find_task p s")
    case None
    with TimerFires same show ?thesis by simp
  next
    case (Some t)
    obtain q tid ph where t: "t = Task q tid ph" by (cases t)
    with Some have q: "q = p" using find_task_promise by blast
    show ?thesis
      using TimerFires Some t q same timer [of p tid] by (cases ph) simp_all
  qed
next
  case (FetchSettles p r)
  show ?thesis
  proof (cases "find_task p s")
    case None
    with FetchSettles same show ?thesis by simp
  next
    case (Some t)
    obtain q tid ph where t: "t = Task q tid ph" by (cases t)
    with Some have q: "q = p" using find_task_promise by blast
    have ft: "find_task p s = Some (Task p tid ph)" using Some t q by simp
    show ?thesis
    proof (cases ph)
      case Fetching
      show ?thesis
      proof (cases r)
        case FetchRejects
        then show ?thesis
          using FetchSettles ft Fetching fail [OF ft] step_fetch_fails(1) [of p s p tid env]
          by simp
      next
        case (Response st)
        consider "response_ok st" | "\<not> response_ok st" "st \<noteq> 429" | "st = 429" by blast
        then show ?thesis
        proof cases
          case 1
          then show ?thesis
            using FetchSettles Response ft Fetching ok [of p tid st]
              step_fetch_fails(4) [of p s p tid st env] by simp
        next
          case 2
          then show ?thesis
            using FetchSettles Response ft Fetching fail [OF ft]
              step_fetch_fails(2) [of p s p tid st env] by simp
        next
          case 3
          then show ?thesis
            using FetchSettles Response ft Fetching limit [of p tid]
              step_fetch_fails(3) [of p s p tid env] by simp
        qed
      qed
    qed (use FetchSettles ft same in simp_all)
  qed
next
  case (JsonSettles p j now)
  show ?thesis
  proof (cases "find_task p s")
    case None
    with JsonSettles same show ?thesis by simp
  next
    case (Some t)
    obtain q tid ph where t: "t = Task q tid ph" by (cases t)
    with Some have q: "q = p" using find_task_promise by blast
    have ft: "find_task p s = Some (Task p tid ph)" using Some t q by simp
    show ?thesis
    proof (cases ph)
      case Parsing
      show ?thesis
      proof (cases j)
        case JsonRejects
        then show ?thesis
          using JsonSettles ft Parsing fail [OF ft] step_json(1) [of p s p tid env now]
          by simp
      next
        case (JsonValue v)
        show ?thesis
        proof (cases "first_post_images env v")
          case (Inl err)
          then show ?thesis
            using JsonSettles JsonValue ft Parsing fail [OF ft]
              step_json(2) [of p s p tid env v err now] by simp
        next
          case (Inr imgs)
          then show ?thesis
            using JsonSettles JsonValue ft Parsing success [of p tid]
              step_json(3) [of p s p tid env v imgs now] by simp
        qed
      qed
    qed (use JsonSettles ft same in simp_all)
  qed
qed

subsection \<open>The counting invariant\<close>

lemma length_filter_distinct:
  "distinct (map f xs) \<Longrightarrow> x \<in> set xs \<Longrightarrow>
   length (filter (\<lambda>t. f t \<noteq> f x) xs) = length xs - 1"
proof (induction xs)
  case Nil
  then show ?case by simp
next
  case (Cons a xs)
  show ?case
  proof (cases "a = x")
    case True
    have "filter (\<lambda>t. f t \<noteq> f x) xs = xs"
      using Cons.prems(1) True by (auto simp: filter_id_conv image_iff)
    with True show ?thesis by simp
  next
    case False
    with Cons.prems have "x \<in> set xs" "f a \<noteq> f x" by auto
    moreover have "length xs > 0" using \<open>x \<in> set xs\<close> by (cases xs) auto
    ultimately show ?thesis using Cons by simp
  qed
qed

lemma find_task_in_tasks:
  "find_task p s = Some t \<Longrightarrow> t \<in> set (tasks s) \<and> task_promise t = p"
  using find_holds [of "\<lambda>t. task_promise t = p" "tasks s" t] by (simp add: find_task_def)

lemma counted_init: "counted init \<and> busy_or_empty init \<and> fifo init"
  by (simp add: counted_def busy_or_empty_def fifo_def init_def pending_def)

lemma counted_processQueue:
  assumes "counted s"
  shows "counted (processQueue s) \<and> busy_or_empty (processQueue s)"
proof (cases "requestQueue s")
  case Nil
  with assms show ?thesis by (simp add: processQueue_def busy_or_empty_def)
next
  case (Cons q rest)
  show ?thesis
  proof (cases "maxConcurrent s \<le> activeRequests s")
    case True
    with Cons assms show ?thesis by (simp add: processQueue_def busy_or_empty_def)
  next
    case False
    then have "tasks s = []"
      using assms by (cases "tasks s") (auto simp: counted_def)
    with False Cons assms show ?thesis
      by (auto simp: processQueue_def busy_or_empty_def counted_def pending_def)
  qed
qed

lemma counted_emit [simp]: "counted (emit a s) = counted s"
  by (simp add: counted_def pending_def)

lemma counted_set_phase [simp]: "counted (set_phase p ph s) = counted s"
  by (simp add: counted_def pending_def)

lemma busy_emit [simp]: "busy_or_empty (emit a s) = busy_or_empty s"
  by (simp add: busy_or_empty_def)

lemma busy_set_phase [simp]: "busy_or_empty (set_phase p ph s) = busy_or_empty s"
  by (simp add: busy_or_empty_def)

lemma counted_cache [simp]: "counted (s\<lparr>imageCache := c\<rparr>) = counted s"
  by (simp add: counted_def pending_def)

lemma counted_limit:
  "counted s \<Longrightarrow>
   counted (s\<lparr>requestDelay := min (requestDelay s * 2) 5000, maxConcurrent := 1\<rparr>)"
  by (simp add: counted_def pending_def)

lemma settle_unfold:
  "\<exists>a. settle p r s =
        processQueue ((emit a s)\<lparr>activeRequests := activeRequests s - 1,
                                 tasks := filter (\<lambda>t. task_promise t \<noteq> p) (tasks s)\<rparr>)
      \<and> a = Settled p (case r of Inr imgs \<Rightarrow> Resolved imgs | Inl e \<Rightarrow> Rejected e)"
  by (cases r) (simp_all add: settle_def Let_def)

lemma counted_settle:
  assumes "counted s" and "find_task p s = Some t"
  shows "counted (settle p r s) \<and> busy_or_empty (settle p r s)"
proof -
  obtain a where a: "settle p r s =
        processQueue ((emit a s)\<lparr>activeRequests := activeRequests s - 1,
                                 tasks := filter (\<lambda>t. task_promise t \<noteq> p) (tasks s)\<rparr>)"
    using settle_unfold by blast
  let ?s2 = "(emit a s)\<lparr>activeRequests := activeRequests s - 1,
                          tasks := filter (\<lambda>t. task_promise t \<noteq> p) (tasks s)\<rparr>"
  have t: "t \<in> set (tasks s)" "task_promise t = p"
    using find_task_in_tasks [OF assms(2)] by simp_all
  have d: "distinct (map task_promise (tasks s))"
    using assms(1) by (simp add: counted_def pending_def)
  have len: "length (filter (\<lambda>u. task_promise u \<noteq> p) (tasks s)) = length (tasks s) - 1"
    using length_filter_distinct [OF d t(1)] t(2) by simp
  have pos: "length (tasks s) > 0" using t(1) by (cases "tasks s") auto
  have l2: "int (length (filter (\<lambda>u. task_promise u \<noteq> p) (tasks s)))
              = int (length (tasks s)) - 1"
    using len pos by linarith
  have cnt: "activeRequests ?s2 = int (length (tasks ?s2))"
    using assms(1) by (simp add: counted_def l2)
  have le: "activeRequests ?s2 \<le> maxConcurrent ?s2"
    using assms(1) by (simp add: counted_def)
  have dis: "distinct (pending ?s2)"
    using assms(1) by (auto simp: counted_def pending_def distinct_map_filter)
  have fr: "\<forall>q\<in>set (pending ?s2). q < nextPromise ?s2"
    using assms(1) by (auto simp: counted_def pending_def)
  have "counted ?s2"
    using assms(1) cnt le dis fr by (simp add: counted_def)
  then have "counted (processQueue ?s2) \<and> busy_or_empty (processQueue ?s2)"
    by (rule counted_processQueue)
  then show ?thesis by (simp add: a)
qed

lemma counted_loadTopicImages:
  assumes "counted s" and "busy_or_empty s"
  shows "counted (loadTopicImages tid n1 n2 s) \<and> busy_or_empty (loadTopicImages tid n1 n2 s)"
proof -
  let ?s1 = "(cleanExpiredCache n1 s)\<lparr>nextPromise := nextPromise s + 1\<rparr>"
  have c1: "counted ?s1"
    using assms(1)
    by (auto simp: counted_def pending_def cleanExpiredCache_def ball_Un less_Suc_eq)
  have b1: "busy_or_empty ?s1"
    using assms(2) by (simp add: busy_or_empty_def cleanExpiredCache_def)
  have enq: "counted (emit (Enqueued (nextPromise s) tid)
                (s'\<lparr>requestQueue := requestQueue s' @ [\<lparr>topicId = tid, settles = nextPromise s\<rparr>]\<rparr>))"
    if "counted s'" "nextPromise s' = nextPromise s + 1"
       "\<forall>p\<in>set (pending s'). p < nextPromise s" for s'
    using that by (auto simp: counted_def pending_def)
  have fresh: "\<forall>p\<in>set (pending ?s1). p < nextPromise s"
    using assms(1) by (simp add: counted_def pending_def cleanExpiredCache_def)
  show ?thesis
  proof (cases "imageCache ?s1 tid")
    case None
    then show ?thesis
      using counted_processQueue [OF enq [OF c1 _ fresh]]
      by (simp add: loadTopicImages_def Let_def)
  next
    case (Some e)
    show ?thesis
    proof (cases "isCacheValid n2 ?s1 (Some e)")
      case True
      with Some c1 b1 show ?thesis by (simp add: loadTopicImages_def Let_def)
    next
      case False
      let ?s2 = "?s1\<lparr>imageCache := (imageCache ?s1)(tid := None)\<rparr>"
      have "counted ?s2" using c1 by simp
      moreover have "\<forall>p\<in>set (pending ?s2). p < nextPromise s"
        using fresh by (simp add: pending_def)
      ultimately show ?thesis
        using Some False counted_processQueue [OF enq [of ?s2]]
        by (simp add: loadTopicImages_def Let_def)
    qed
  qed
qed

lemma counted_step:
  assumes "counted s \<and> busy_or_empty s"
  shows "counted (step env e s) \<and> busy_or_empty (step env e s)"
proof (induction rule: step_cases [where P = "\<lambda>s'. counted s' \<and> busy_or_empty s'"])
  case same
  show ?case using assms .
next
  case (call tid n1 n2)
  show ?case using assms counted_loadTopicImages by blast
next
  case (timer p tid d)
  show ?case using assms by simp
next
  case (ok p tid)
  show ?case using assms by simp
next
  case (fail p tid ph err)
  then show ?case using assms counted_settle [of "emit (ConsoleError tid err) s" p]
    by (simp add: find_task_def)
next
  case (limit p tid)
  then show ?case
    using assms counted_limit [of s]
      counted_settle [of "emit (ConsoleError tid RateLimitExceeded)
          (s\<lparr>requestDelay := min (requestDelay s * 2) 5000, maxConcurrent := 1\<rparr>)" p]
    by (simp add: find_task_def)
next
  case (success p tid imgs now)
  then show ?case
    using assms
      counted_settle [of "s\<lparr>imageCache :=
          (imageCache s)(tid \<mapsto> \<lparr>images = imgs, timestamp = now\<rparr>)\<rparr>" p]
    by (simp add: find_task_def)
qed

lemma run_snoc: "run env (es @ [e]) s = step env e (run env es s)"
  by (simp add: run_def)

lemma run_append: "run env (es @ es') s = run env es' (run env es s)"
  by (simp add: run_def)

lemma counted_run_from:
  "counted s \<and> busy_or_empty s \<Longrightarrow> counted (run env es s) \<and> busy_or_empty (run env es s)"
proof (induction es rule: rev_induct)
  case Nil
  then show ?case by (simp add: run_def)
next
  case (snoc e es)
  then show ?case using counted_step by (simp add: run_snoc)
qed

lemma counted_run: "counted (run env es init) \<and> busy_or_empty (run env es init)"
  using counted_run_from counted_init by blast

subsection \<open>What the trace of each operation adds\<close>

lemma processQueue_readings [simp]:
  "settled_as q (trace (processQueue s)) = settled_as q (trace s)"
  "enqueue_order (trace (processQueue s)) = enqueue_order (trace s)"
  "fetches (trace (processQueue s)) = fetches (trace s)"
  "errors_logged (trace (processQueue s)) = errors_logged (trace s)"
  by (simp_all add: processQueue_trace split: list.splits)

lemma settle_readings [simp]:
  "settled_as q (trace (settle p r s))
     = settled_as q (trace s)
       @ (if q = p then [case r of Inr imgs \<Rightarrow> Resolved imgs | Inl e \<Rightarrow> Rejected e] else [])"
  "enqueue_order (trace (settle p r s)) = enqueue_order (trace s)"
  "fetches (trace (settle p r s)) = fetches (trace s)"
  "errors_logged (trace (settle p r s)) = errors_logged (trace s)"
  by (cases r; simp add: settle_def Let_def)+

lemma cleanExpiredCache_fields [simp]:
  "trace (cleanExpiredCache now s) = trace s"
  "requestQueue (cleanExpiredCache now s) = requestQueue s"
  "activeRequests (cleanExpiredCache now s) = activeRequests s"
  "maxConcurrent (cleanExpiredCache now s) = maxConcurrent s"
  "requestDelay (cleanExpiredCache now s) = requestDelay s"
  "cacheExpiry (cleanExpiredCache now s) = cacheExpiry s"
  "tasks (cleanExpiredCache now s) = tasks s"
  "nextPromise (cleanExpiredCache now s) = nextPromise s"
  by (simp_all add: cleanExpiredCache_def)

lemma loadTopicImages_frame [simp]:
  "maxConcurrent (loadTopicImages tid n1 n2 s) = maxConcurrent s"
  "requestDelay (loadTopicImages tid n1 n2 s) = requestDelay s"
  "cacheExpiry (loadTopicImages tid n1 n2 s) = cacheExpiry s"
  "nextPromise (loadTopicImages tid n1 n2 s) = nextPromise s + 1"
  "fetches (trace (loadTopicImages tid n1 n2 s)) = fetches (trace s)"
  "errors_logged (trace (loadTopicImages tid n1 n2 s)) = errors_logged (trace s)"
  by (simp_all add: loadTopicImages_def Let_def split: option.splits)

lemma loadTopicImages_settles:
  "settled_as q (trace (loadTopicImages tid n1 n2 s)) = settled_as q (trace s)
   \<or> (\<exists>imgs. settled_as q (trace (loadTopicImages tid n1 n2 s))
               = settled_as q (trace s) @ [Resolved imgs])"
  by (simp add: loadTopicImages_def Let_def split: option.splits)

lemma Settled_in_trace: "Settled p x \<in> set tr \<longleftrightarrow> x \<in> set (settled_as p tr)"
  by (induction p tr rule: settled_as.induct) auto

subsection \<open>No promise is ever rejected\<close>

lemma step_keeps_resolved:
  assumes "Rejected e \<notin> set (settled_as q (trace s))"
  shows "Rejected e \<notin> set (settled_as q (trace (step env ev s)))"
proof (induction rule: step_cases [where P = "\<lambda>s'. Rejected e \<notin> set (settled_as q (trace s'))"])
  case (call tid n1 n2)
  show ?case using assms loadTopicImages_settles [of q tid n1 n2 s] by auto
qed (use assms in simp_all)

lemma run_keeps_resolved: "Rejected e \<notin> set (settled_as q (trace (run env es init)))"
proof (induction es rule: rev_induct)
  case Nil
  show ?case by (simp add: run_def init_def)
next
  case (snoc ev es)
  then show ?case using step_keeps_resolved by (simp add: run_snoc)
qed

subsection \<open>The throttle only tightens\<close>

lemma delay_step:
  assumes "counted s"
  shows "requestDelay s \<le> requestDelay (step env e s)"
  using assms
  by (intro step_cases [where P = "\<lambda>s'. requestDelay s \<le> requestDelay s'"])
     (simp_all add: counted_def)

lemma delay_run_from:
  "counted s \<and> busy_or_empty s \<Longrightarrow> requestDelay s \<le> requestDelay (run env es s)"
proof (induction es rule: rev_induct)
  case Nil
  show ?case by (simp add: run_def)
next
  case (snoc e es)
  have "counted (run env es s)" using snoc.prems counted_run_from by blast
  then have "requestDelay (run env es s) \<le> requestDelay (step env e (run env es s))"
    by (rule delay_step)
  with snoc show ?case by (simp add: run_snoc)
qed

subsection \<open>The concurrency bound\<close>

text \<open>
  Claim C7: in every state the loader reaches from its initial state, whatever the calls
  and whatever the outcomes of timers and fetches, \<open>activeRequests\<close> is the number of
  suspended tasks and never exceeds \<open>maxConcurrent\<close>, and so neither does the number
  of fetches in flight.
\<close>

theorem concurrency_bound:
  "activeRequests (run env es init) \<le> maxConcurrent (run env es init)
   \<and> activeRequests (run env es init) = int (length (tasks (run env es init)))
   \<and> int (in_flight (run env es init)) \<le> maxConcurrent (run env es init)"
proof -
  let ?s = "run env es init"
  have c: "counted ?s" using counted_run by blast
  have "in_flight ?s \<le> length (tasks ?s)" by (simp add: in_flight_def)
  with c show ?thesis by (simp add: counted_def)
qed

theorem concurrency_bound_witness:
  "activeRequests (run example_env [Call 7 0 0, Call 8 0 0, TimerFires 0] init) = 1
   \<and> maxConcurrent (run example_env [Call 7 0 0, Call 8 0 0, TimerFires 0] init) = 1
   \<and> in_flight (run example_env [Call 7 0 0, Call 8 0 0, TimerFires 0] init) = 1
   \<and> map settles (requestQueue (run example_env [Call 7 0 0, Call 8 0 0, TimerFires 0] init))
       = [1]"
proof -
  let ?s = "run example_env [Call 7 0 0, Call 8 0 0, TimerFires 0] init"
  have a: "in_flight ?s = 1" by code_simp
  have b: "map settles (requestQueue ?s) = [1]" by code_simp
  have c: "maxConcurrent ?s = 1" by code_simp
  have d: "length (tasks ?s) = 1" by code_simp
  show ?thesis
    using concurrency_bound [of example_env "[Call 7 0 0, Call 8 0 0, TimerFires 0]"] a b c d
    by simp
qed

subsection \<open>Transport errors\<close>

text \<open>
  Claim C1, as stated, says that a 429 or another non-2xx status rejects the caller's
  promise. The \<^verbatim>\<open>throw\<close>s of lines 105 and 107 are inside the \<^verbatim>\<open>try\<close> whose
  \<^verbatim>\<open>catch\<close> (lines 130-133) logs and returns the empty list: the promise is resolved
  with \<open>[]\<close>, for 429 and for 500 alike.
\<close>

theorem transport_errors_counterexample:
  "settled_as 0 (trace (run example_env
       [Call 7 0 0, TimerFires 0, FetchSettles 0 (Response 429)] init)) = [Resolved []]
   \<and> settled_as 0 (trace (run example_env
       [Call 7 0 0, TimerFires 0, FetchSettles 0 (Response 500)] init)) = [Resolved []]"
  by code_simp

text \<open>
  Claim C1, amended: for every request whose fetch ends in a 429 status or in any other
  non-2xx status, a rate-limit error (for 429) or an error carrying the HTTP status
  (otherwise) is raised inside the fetch routine, logged to the console and absorbed
  there: the promise returned to the caller is resolved with the empty sequence.
\<close>

theorem transport_errors_absorbed:
  assumes "find_task p s = Some (Task p tid Fetching)" and "\<not> response_ok status"
  shows "errors_logged (trace (step env (FetchSettles p (Response status)) s))
           = errors_logged (trace s)
             @ [(tid, if status = 429 then RateLimitExceeded else HttpError status)]
         \<and> settled_as p (trace (step env (FetchSettles p (Response status)) s))
           = settled_as p (trace s) @ [Resolved []]"
proof (cases "status = 429")
  case True
  then show ?thesis using step_fetch_fails(3) [OF assms(1), of env] by simp
next
  case False
  then show ?thesis using step_fetch_fails(2) [OF assms(1,2), of env] by simp
qed

theorem transport_errors_absorbed_witness:
  "errors_logged (trace (step example_env (FetchSettles 0 (Response 500))
       (run example_env [Call 7 0 0, TimerFires 0] init))) = [(7, HttpError 500)]
   \<and> settled_as 0 (trace (step example_env (FetchSettles 0 (Response 500))
       (run example_env [Call 7 0 0, TimerFires 0] init))) = [Resolved []]"
proof -
  let ?s = "run example_env [Call 7 0 0, TimerFires 0] init"
  have h1: "find_task 0 ?s = Some (Task 0 7 Fetching)" by code_simp
  have h2: "\<not> response_ok 500" by code_simp
  have v: "errors_logged (trace ?s) = []" "settled_as 0 (trace ?s) = []" by code_simp+
  show ?thesis using transport_errors_absorbed [OF h1 h2, of example_env] v by simp
qed

subsection \<open>Backoff\<close>

text \<open>
  Claim C4: when a fetch attempt observes status 429, the request is settled in a state
  in which \<open>requestDelay\<close> is already \<open>min (2 * requestDelay) 5000\<close> and
  \<open>maxConcurrent\<close> is already 1, and these are the values after the event; and along
  every run from the initial state the delay never decreases and the concurrency limit
  never increases.
\<close>

theorem backoff_on_429:
  "(find_task p s = Some (Task p tid Fetching) \<longrightarrow>
      step env (FetchSettles p (Response 429)) s
        = settle p (Inr [])
            (emit (ConsoleError tid RateLimitExceeded)
               (s\<lparr>requestDelay := min (requestDelay s * 2) 5000, maxConcurrent := 1\<rparr>))
      \<and> requestDelay (step env (FetchSettles p (Response 429)) s)
          = min (2 * requestDelay s) 5000
      \<and> maxConcurrent (step env (FetchSettles p (Response 429)) s) = 1)
   \<and> requestDelay (run env es init) \<le> requestDelay (run env (es @ es') init)
   \<and> maxConcurrent (run env (es @ es') init) \<le> maxConcurrent (run env es init)"
proof -
  have c: "counted (run env es init) \<and> busy_or_empty (run env es init)"
    by (rule counted_run)
  have "counted (run env (es @ es') init)" using counted_run by blast
  with c have m: "maxConcurrent (run env (es @ es') init) \<le> maxConcurrent (run env es init)"
    by (simp add: counted_def)
  have d: "requestDelay (run env es init) \<le> requestDelay (run env (es @ es') init)"
    using delay_run_from [OF c, of env es'] by (simp add: run_append)
  show ?thesis using m d step_fetch_fails(3) [of p s p tid env] by (simp add: mult.commute)
qed

theorem backoff_on_429_witness:
  "requestDelay (run example_env [Call 7 0 0, TimerFires 0] init) = 300
   \<and> requestDelay (step example_env (FetchSettles 0 (Response 429))
        (run example_env [Call 7 0 0, TimerFires 0] init)) = 600
   \<and> maxConcurrent (step example_env (FetchSettles 0 (Response 429))
        (run example_env [Call 7 0 0, TimerFires 0] init)) = 1"
proof -
  let ?s = "run example_env [Call 7 0 0, TimerFires 0] init"
  have h: "find_task 0 ?s = Some (Task 0 7 Fetching)" by code_simp
  have v: "requestDelay ?s = 300" by code_simp
  show ?thesis using backoff_on_429 [of 0 ?s 7 example_env "[]" "[]"] h v by simp
qed

subsection \<open>First in, first out\<close>

lemma fifo_processQueue: "fifo s \<Longrightarrow> fifo (processQueue s)"
  by (auto simp: fifo_def processQueue_def split: list.splits)

lemma fifo_set_phase [simp]: "fifo (set_phase p ph s) = fifo s"
  by (simp add: fifo_def)

lemma fifo_console [simp]: "fifo (emit (ConsoleError tid e) s) = fifo s"
  by (simp add: fifo_def)

lemma fifo_fetch [simp]: "fifo (emit (FetchIssued p tid) s) = fifo s"
  by (simp add: fifo_def)

lemma fifo_cache [simp]: "fifo (s\<lparr>imageCache := c\<rparr>) = fifo s"
  by (simp add: fifo_def)

lemma fifo_limit [simp]: "fifo (s\<lparr>requestDelay := d, maxConcurrent := m\<rparr>) = fifo s"
  by (simp add: fifo_def)

lemma fifo_settle: "fifo s \<Longrightarrow> fifo (settle p r s)"
proof -
  assume f: "fifo s"
  obtain a where a: "settle p r s =
        processQueue ((emit a s)\<lparr>activeRequests := activeRequests s - 1,
                                 tasks := filter (\<lambda>t. task_promise t \<noteq> p) (tasks s)\<rparr>)"
      and v: "a = Settled p (case r of Inr imgs \<Rightarrow> Resolved imgs | Inl e \<Rightarrow> Rejected e)"
    using settle_unfold by blast
  have "fifo ((emit a s)\<lparr>activeRequests := activeRequests s - 1,
                         tasks := filter (\<lambda>t. task_promise t \<noteq> p) (tasks s)\<rparr>)"
    using f v by (simp add: fifo_def)
  then show ?thesis unfolding a by (rule fifo_processQueue)
qed

lemma fifo_enqueue:
  assumes "fifo s'" and "nextPromise s' = Suc n"
    and "\<forall>p\<in>set (enqueue_order (trace s')). p < n"
  shows "fifo (processQueue (emit (Enqueued n tid)
           (s'\<lparr>requestQueue := requestQueue s' @ [\<lparr>topicId = tid, settles = n\<rparr>]\<rparr>)))"
proof -
  have "fifo (emit (Enqueued n tid)
           (s'\<lparr>requestQueue := requestQueue s' @ [\<lparr>topicId = tid, settles = n\<rparr>]\<rparr>))"
    using assms by (auto simp: fifo_def)
  then show ?thesis by (rule fifo_processQueue)
qed

lemma fifo_loadTopicImages:
  assumes "fifo s"
  shows "fifo (loadTopicImages tid n1 n2 s)"
proof -
  let ?s1 = "(cleanExpiredCache n1 s)\<lparr>nextPromise := nextPromise s + 1\<rparr>"
  have f1: "fifo ?s1" using assms by (auto simp: fifo_def less_Suc_eq)
  have b1: "\<forall>p\<in>set (enqueue_order (trace ?s1)). p < nextPromise s"
    using assms by (simp add: fifo_def)
  show ?thesis
  proof (cases "imageCache ?s1 tid")
    case None
    then show ?thesis
      using fifo_enqueue [OF f1 _ b1, of tid] by (simp add: loadTopicImages_def Let_def)
  next
    case (Some e)
    show ?thesis
    proof (cases "isCacheValid n2 ?s1 (Some e)")
      case True
      have "fifo (emit (Settled (nextPromise s) (Resolved (images e))) ?s1)"
        using f1 by (simp add: fifo_def)
      with Some True show ?thesis by (simp add: loadTopicImages_def Let_def)
    next
      case False
      let ?s2 = "?s1\<lparr>imageCache := (imageCache ?s1)(tid := None)\<rparr>"
      have f2: "fifo ?s2" using f1 by simp
      have b2: "\<forall>p\<in>set (enqueue_order (trace ?s2)). p < nextPromise s" using b1 by simp
      show ?thesis
        using Some False fifo_enqueue [OF f2 _ b2, of tid]
        by (simp add: loadTopicImages_def Let_def)
    qed
  qed
qed

lemma fifo_step:
  assumes "fifo s"
  shows "fifo (step env e s)"
  using assms
  by (intro step_cases [where P = fifo])
     (simp_all add: fifo_loadTopicImages fifo_settle)

lemma fifo_run: "fifo (run env es init)"
proof (induction es rule: rev_induct)
  case Nil
  show ?case using counted_init by (simp add: run_def)
next
  case (snoc e es)
  then show ?case using fifo_step by (simp add: run_snoc)
qed

lemma settle_dispatches_head:
  assumes "counted s" and "find_task p s = Some t" and "requestQueue s = q # rest"
  shows "requestQueue (settle p r s) = rest
         \<and> dispatch_order (trace (settle p r s)) = dispatch_order (trace s) @ [settles q]"
proof -
  obtain a where a: "settle p r s =
        processQueue ((emit a s)\<lparr>activeRequests := activeRequests s - 1,
                                 tasks := filter (\<lambda>t. task_promise t \<noteq> p) (tasks s)\<rparr>)"
      and v: "a = Settled p (case r of Inr imgs \<Rightarrow> Resolved imgs | Inl e \<Rightarrow> Rejected e)"
    using settle_unfold by blast
  have "activeRequests s - 1 < maxConcurrent s"
    using assms(1) by (simp add: counted_def)
  then show ?thesis
    unfolding a using assms(3) v by (simp add: processQueue_def)
qed

text \<open>
  Claim C8: along every run from the initial state, the promises dispatched so far,
  followed by those still in the queue, are the promises enqueued so far, in the order
  of their enqueueing, each enqueued once: requests are dispatched in the order in
  which they were enqueued. The dispatch step, run after every enqueue and every settle,
  leaves no request waiting while a slot is free; when it dispatches it takes the head
  of the queue; and the settling of a request dispatches the head of a non-empty queue.
\<close>

theorem dispatch_is_fifo:
  "dispatch_order (trace (run env es init)) @ map settles (requestQueue (run env es init))
     = enqueue_order (trace (run env es init))
   \<and> distinct (enqueue_order (trace (run env es init)))
   \<and> (requestQueue (run env es init) \<noteq> [] \<longrightarrow>
        maxConcurrent (run env es init) \<le> activeRequests (run env es init))
   \<and> (requestQueue s = q # rest \<and> activeRequests s < maxConcurrent s \<longrightarrow>
        requestQueue (processQueue s) = rest
        \<and> dispatch_order (trace (processQueue s)) = dispatch_order (trace s) @ [settles q])
   \<and> (find_task p (run env es init) = Some t \<and> requestQueue (run env es init) = q # rest \<longrightarrow>
        requestQueue (settle p r (run env es init)) = rest
        \<and> dispatch_order (trace (settle p r (run env es init)))
            = dispatch_order (trace (run env es init)) @ [settles q])"
proof -
  have f: "fifo (run env es init)" by (rule fifo_run)
  have c: "counted (run env es init)" using counted_run by blast
  have b: "busy_or_empty (run env es init)" using counted_run by blast
  have h: "requestQueue s = q # rest \<and> activeRequests s < maxConcurrent s \<longrightarrow>
        requestQueue (processQueue s) = rest
        \<and> dispatch_order (trace (processQueue s)) = dispatch_order (trace s) @ [settles q]"
    by (simp add: processQueue_def)
  have d: "find_task p (run env es init) = Some t \<and> requestQueue (run env es init) = q # rest
        \<longrightarrow> requestQueue (settle p r (run env es init)) = rest
        \<and> dispatch_order (trace (settle p r (run env es init)))
            = dispatch_order (trace (run env es init)) @ [settles q]"
    using settle_dispatches_head [OF c] by blast
  have o: "dispatch_order (trace (run env es init)) @ map settles (requestQueue (run env es init))
     = enqueue_order (trace (run env es init))
   \<and> distinct (enqueue_order (trace (run env es init)))"
    using f by (simp add: fifo_def)
  have w: "requestQueue (run env es init) \<noteq> [] \<longrightarrow>
        maxConcurrent (run env es init) \<le> activeRequests (run env es init)"
    using b by (simp add: busy_or_empty_def)
  show ?thesis using o w h d by blast
qed

theorem dispatch_is_fifo_witness:
  "enqueue_order (trace (run example_env
      [Call 7 0 0, Call 8 0 0, Call 9 0 0, TimerFires 0, FetchSettles 0 (Response 500)] init))
     = [0, 1, 2]
   \<and> dispatch_order (trace (run example_env
      [Call 7 0 0, Call 8 0 0, Call 9 0 0, TimerFires 0, FetchSettles 0 (Response 500)] init))
     = [0, 1]
   \<and> map settles (requestQueue (run example_env
      [Call 7 0 0, Call 8 0 0, Call 9 0 0, TimerFires 0, FetchSettles 0 (Response 500)] init))
     = [2]
   \<and> activeRequests (run example_env
      [Call 7 0 0, Call 8 0 0, Call 9 0 0, TimerFires 0, FetchSettles 0 (Response 500)] init)
     = 1"
proof -
  let ?es = "[Call 7 0 0, Call 8 0 0, Call 9 0 0, TimerFires 0, FetchSettles 0 (Response 500)]"
  let ?s = "run example_env ?es init"
  have d: "dispatch_order (trace ?s) = [0, 1]" by code_simp
  have q: "map settles (requestQueue ?s) = [2]" by code_simp
  have m: "maxConcurrent ?s = 1" by code_simp
  have a: "activeRequests ?s \<le> 1" by code_simp
  have n: "requestQueue ?s \<noteq> []" using q by auto
  show ?thesis
    using dispatch_is_fifo [of example_env ?es init] d q m a n by simp
qed

subsection \<open>Failures resolve with the empty list and leave the cache alone\<close>

lemma step_fetch_fails_settles:
  assumes "find_task p s = Some (Task p tid Fetching)" and "fetch_fails r"
  shows "settled_as p (trace (step env (FetchSettles p r) s))
           = settled_as p (trace s) @ [Resolved []]"
proof (cases r)
  case FetchRejects
  then show ?thesis using step_fetch_fails(1) [OF assms(1), of env] by simp
next
  case (Response st)
  with assms(2) have n: "\<not> response_ok st" by (simp add: fetch_fails_def)
  show ?thesis
  proof (cases "st = 429")
    case True
    with Response show ?thesis using step_fetch_fails(3) [OF assms(1), of env] by simp
  next
    case False
    with Response n show ?thesis using step_fetch_fails(2) [OF assms(1), of st env] by simp
  qed
qed

lemma step_json_fails_settles:
  assumes "find_task p s = Some (Task p tid Parsing)" and "json_fails env j"
  shows "settled_as p (trace (step env (JsonSettles p j now) s))
           = settled_as p (trace s) @ [Resolved []]"
proof (cases j)
  case JsonRejects
  then show ?thesis using step_json(1) [OF assms(1), of env now] by simp
next
  case (JsonValue v)
  with assms(2) obtain e where "first_post_images env v = Inl e"
    by (auto simp: json_fails_def split: sum.splits)
  with JsonValue show ?thesis using step_json(2) [OF assms(1), of env v e now] by simp
qed

text \<open>
  Claim C9: along every run from the initial state no promise is ever rejected (the
  \<^verbatim>\<open>reject\<close> callback of a queued request is never invoked); and for every request
  and every failing outcome of its fetch attempt (a network failure, a 429 or any other
  non-2xx status, a rejected \<^verbatim>\<open>response.json()\<close>, an exception while the body is
  read), the event that delivers the outcome resolves the request's promise with the
  empty sequence.
\<close>

theorem loadTopicImages_never_rejects:
  "Settled q (Rejected e) \<notin> set (trace (run env es init))
   \<and> (find_task p s = Some (Task p tid Fetching) \<and> fetch_fails r \<longrightarrow>
        settled_as p (trace (step env (FetchSettles p r) s))
          = settled_as p (trace s) @ [Resolved []])
   \<and> (find_task p s = Some (Task p tid Parsing) \<and> json_fails env j \<longrightarrow>
        settled_as p (trace (step env (JsonSettles p j now) s))
          = settled_as p (trace s) @ [Resolved []])"
  using run_keeps_resolved [of e q env es] step_fetch_fails_settles step_json_fails_settles
  by (simp add: Settled_in_trace)

theorem loadTopicImages_never_rejects_witness:
  "settled_as 0 (trace (step example_env (FetchSettles 0 FetchRejects)
      (run example_env [Call 7 0 0, TimerFires 0] init))) = [Resolved []]
   \<and> settled_as 0 (trace (step example_env (JsonSettles 0 (JsonValue JsonNull) 5)
      (run example_env [Call 7 0 0, TimerFires 0, FetchSettles 0 (Response 200)] init)))
     = [Resolved []]"
proof -
  let ?s = "run example_env [Call 7 0 0, TimerFires 0] init"
  let ?t = "run example_env [Call 7 0 0, TimerFires 0, FetchSettles 0 (Response 200)] init"
  have h1: "find_task 0 ?s = Some (Task 0 7 Fetching)" by code_simp
  have h2: "fetch_fails FetchRejects" by code_simp
  have h3: "find_task 0 ?t = Some (Task 0 7 Parsing)" by code_simp
  have h4: "json_fails example_env (JsonValue JsonNull)" by code_simp
  have v: "settled_as 0 (trace ?s) = []" "settled_as 0 (trace ?t) = []" by code_simp+
  have a: "settled_as 0 (trace (step example_env (FetchSettles 0 FetchRejects) ?s))
             = settled_as 0 (trace ?s) @ [Resolved []]"
    using loadTopicImages_never_rejects [of 0 FetchFailed example_env "[]" 0 ?s 7 FetchRejects]
      h1 h2 by blast
  have b: "settled_as 0 (trace (step example_env (JsonSettles 0 (JsonValue JsonNull) 5) ?t))
             = settled_as 0 (trace ?t) @ [Resolved []]"
    using loadTopicImages_never_rejects
      [of 0 FetchFailed example_env "[]" 0 ?t 7 FetchRejects "JsonValue JsonNull" 5]
      h3 h4 by blast
  show ?thesis using a b v by simp
qed

subsection \<open>The cache\<close>

lemma step_keeps_cache:
  "imageCache (step env (TimerFires p) s) = imageCache s"
  "imageCache (step env (FetchSettles p r) s) = imageCache s"
  "json_fails env j \<Longrightarrow> imageCache (step env (JsonSettles p j now) s) = imageCache s"
proof -
  show "imageCache (step env (TimerFires p) s) = imageCache s"
    by (simp split: option.splits task.splits phase.splits)
  show "imageCache (step env (FetchSettles p r) s) = imageCache s"
    by (simp add: on_response_def
             split: option.splits task.splits phase.splits fetch_result.splits)
  show "imageCache (step env (JsonSettles p j now) s) = imageCache s" if "json_fails env j"
    using that
    by (simp add: on_json_def json_fails_def
             split: option.splits task.splits phase.splits json_result.splits sum.splits)
qed

lemma loadTopicImages_sweeps:
  assumes "imageCache (loadTopicImages tid n1 n2 s) k = Some e"
  shows "imageCache s k = Some e \<and> n1 - timestamp e < cacheExpiry s"
  using assms
  by (auto simp: loadTopicImages_def Let_def cleanExpiredCache_def
           split: option.splits if_splits)

lemma loadTopicImages_hit:
  assumes "imageCache s tid = Some e"
    and "n1 - timestamp e < cacheExpiry s" and "n2 - timestamp e < cacheExpiry s"
  shows "loadTopicImages tid n1 n2 s
           = emit (Settled (nextPromise s) (Resolved (images e)))
               ((cleanExpiredCache n1 s)\<lparr>nextPromise := nextPromise s + 1\<rparr>)"
  using assms
  by (simp add: loadTopicImages_def Let_def cleanExpiredCache_def isCacheValid_def)

lemma loadTopicImages_miss:
  assumes "is_miss tid n1 n2 s"
  shows "\<exists>c. c tid = None \<and>
           loadTopicImages tid n1 n2 s
             = processQueue (emit (Enqueued (nextPromise s) tid)
                 (s\<lparr>imageCache := c, nextPromise := nextPromise s + 1,
                    requestQueue := requestQueue s @ [\<lparr>topicId = tid, settles = nextPromise s\<rparr>]\<rparr>))"
proof (cases "imageCache (cleanExpiredCache n1 s) tid")
  case None
  then show ?thesis
    by (intro exI [of _ "imageCache (cleanExpiredCache n1 s)"])
       (simp add: loadTopicImages_def Let_def cleanExpiredCache_def)
next
  case (Some e)
  then have e: "imageCache s tid = Some e" "\<not> cacheExpiry s \<le> n1 - timestamp e"
    by (auto simp: cleanExpiredCache_def split: option.splits if_splits)
  with assms have "cacheExpiry s \<le> n2 - timestamp e" by (simp add: is_miss_def)
  then have "\<not> isCacheValid n2 ((cleanExpiredCache n1 s)\<lparr>nextPromise := nextPromise s + 1\<rparr>)
                 (Some e)"
    by (simp add: isCacheValid_def)
  with Some show ?thesis
    by (intro exI [of _ "(imageCache (cleanExpiredCache n1 s))(tid := None)"])
       (auto simp: loadTopicImages_def Let_def cleanExpiredCache_def emit_def
             intro!: arg_cong [where f = processQueue])
qed

lemma loadTopicImages_miss_readings:
  assumes "is_miss tid n1 n2 s"
  shows "enqueue_order (trace (loadTopicImages tid n1 n2 s))
           = enqueue_order (trace s) @ [nextPromise s]"
    and "imageCache (loadTopicImages tid n1 n2 s) tid = None"
    and "settled_as q (trace (loadTopicImages tid n1 n2 s)) = settled_as q (trace s)"
proof -
  obtain c where c: "c tid = None"
    and l: "loadTopicImages tid n1 n2 s
             = processQueue (emit (Enqueued (nextPromise s) tid)
                 (s\<lparr>imageCache := c, nextPromise := nextPromise s + 1,
                    requestQueue := requestQueue s @ [\<lparr>topicId = tid, settles = nextPromise s\<rparr>]\<rparr>))"
    using loadTopicImages_miss [OF assms] by blast
  show "enqueue_order (trace (loadTopicImages tid n1 n2 s))
           = enqueue_order (trace s) @ [nextPromise s]"
    unfolding l by simp
  show "imageCache (loadTopicImages tid n1 n2 s) tid = None"
    unfolding l using c by simp
  show "settled_as q (trace (loadTopicImages tid n1 n2 s)) = settled_as q (trace s)"
    unfolding l by simp
qed

lemma hit_or_miss:
  "is_miss tid n1 n2 s \<or>
   (\<exists>e. imageCache s tid = Some e \<and> n1 - timestamp e < cacheExpiry s
        \<and> n2 - timestamp e < cacheExpiry s)"
  by (cases "imageCache s tid") (auto simp: is_miss_def)

lemma loadTopicImages_returns_fresh:
  assumes "settled_as q (trace (loadTopicImages tid n1 n2 s)) \<noteq> settled_as q (trace s)"
  shows "\<exists>e. imageCache s tid = Some e \<and> n1 - timestamp e < cacheExpiry s
             \<and> n2 - timestamp e < cacheExpiry s
             \<and> settled_as q (trace (loadTopicImages tid n1 n2 s))
                 = settled_as q (trace s) @ [Resolved (images e)]"
proof -
  have "\<not> is_miss tid n1 n2 s"
    using assms loadTopicImages_miss_readings(3) by blast
  then obtain e where e: "imageCache s tid = Some e" "n1 - timestamp e < cacheExpiry s"
      "n2 - timestamp e < cacheExpiry s"
    using hit_or_miss by blast
  have "q = nextPromise s"
    using assms by (auto simp: loadTopicImages_hit [OF e] split: if_splits)
  then show ?thesis using e by (simp add: loadTopicImages_hit [OF e])
qed

lemma idle_miss_fetches:
  assumes "is_miss tid n1 n2 s" and "tasks s = []" and "requestQueue s = []"
    and "activeRequests s < maxConcurrent s"
  shows "fetches (trace (step env (TimerFires (nextPromise s)) (loadTopicImages tid n1 n2 s)))
           = fetches (trace s) @ [tid]"
proof -
  obtain c where l: "loadTopicImages tid n1 n2 s
             = processQueue (emit (Enqueued (nextPromise s) tid)
                 (s\<lparr>imageCache := c, nextPromise := nextPromise s + 1,
                    requestQueue := requestQueue s @ [\<lparr>topicId = tid, settles = nextPromise s\<rparr>]\<rparr>))"
    using loadTopicImages_miss [OF assms(1)] by blast
  have t: "tasks (loadTopicImages tid n1 n2 s)
             = [Task (nextPromise s) tid (Delaying (requestDelay s))]"
    unfolding l using assms(2,3,4) by (simp add: processQueue_def)
  have f: "fetches (trace (loadTopicImages tid n1 n2 s)) = fetches (trace s)" by simp
  have "find_task (nextPromise s) (loadTopicImages tid n1 n2 s)
          = Some (Task (nextPromise s) tid (Delaying (requestDelay s)))"
    using t by (simp add: find_task_def)
  from step_timer [OF this, of env] f show ?thesis by simp
qed

lemma step_success:
  assumes "find_task p s = Some (Task p tid Parsing)" and "first_post_images env v = Inr imgs"
  shows "settled_as p (trace (step env (JsonSettles p (JsonValue v) now) s))
           = settled_as p (trace s) @ [Resolved imgs]"
    and "imageCache (step env (JsonSettles p (JsonValue v) now) s) tid
           = Some \<lparr>images = imgs, timestamp = now\<rparr>"
  using step_json(3) [OF assms, of now] by simp_all

lemma step_call_hit:
  assumes "imageCache s tid = Some e"
    and "n1 - timestamp e < cacheExpiry s" and "n2 - timestamp e < cacheExpiry s"
  shows "settled_as (nextPromise s) (trace (step env (Call tid n1 n2) s))
           = settled_as (nextPromise s) (trace s) @ [Resolved (images e)]"
    and "enqueue_order (trace (step env (Call tid n1 n2) s)) = enqueue_order (trace s)"
    and "fetches (trace (step env (Call tid n1 n2) s)) = fetches (trace s)"
    and "requestQueue (step env (Call tid n1 n2) s) = requestQueue s"
    and "tasks (step env (Call tid n1 n2) s) = tasks s"
    and "activeRequests (step env (Call tid n1 n2) s) = activeRequests s"
  by (simp_all add: loadTopicImages_hit [OF assms])

text \<open>
  Claim C5: when the fetch for an id succeeds, the value its promise is resolved with is
  the value stored in the cache for that id, together with the time of storing; and a
  call for the same id in any later state that still holds that entry, at an age below
  the TTL at both clock readings of the call, resolves its promise with that same value,
  and enqueues nothing, starts no task and issues no fetch.
\<close>

theorem cache_hit_within_ttl:
  "(find_task p s = Some (Task p tid Parsing) \<and> first_post_images env v = Inr imgs \<longrightarrow>
      settled_as p (trace (step env (JsonSettles p (JsonValue v) t1) s))
        = settled_as p (trace s) @ [Resolved imgs]
      \<and> imageCache (step env (JsonSettles p (JsonValue v) t1) s) tid
        = Some \<lparr>images = imgs, timestamp = t1\<rparr>)
   \<and> (imageCache s2 tid = Some \<lparr>images = imgs, timestamp = t1\<rparr>
        \<and> n1 - t1 < cacheExpiry s2 \<and> n2 - t1 < cacheExpiry s2 \<longrightarrow>
      settled_as (nextPromise s2) (trace (step env (Call tid n1 n2) s2))
        = settled_as (nextPromise s2) (trace s2) @ [Resolved imgs]
      \<and> enqueue_order (trace (step env (Call tid n1 n2) s2)) = enqueue_order (trace s2)
      \<and> fetches (trace (step env (Call tid n1 n2) s2)) = fetches (trace s2)
      \<and> requestQueue (step env (Call tid n1 n2) s2) = requestQueue s2
      \<and> tasks (step env (Call tid n1 n2) s2) = tasks s2
      \<and> activeRequests (step env (Call tid n1 n2) s2) = activeRequests s2)"
proof -
  have a: "settled_as p (trace (step env (JsonSettles p (JsonValue v) t1) s))
        = settled_as p (trace s) @ [Resolved imgs]
      \<and> imageCache (step env (JsonSettles p (JsonValue v) t1) s) tid
        = Some \<lparr>images = imgs, timestamp = t1\<rparr>"
    if "find_task p s = Some (Task p tid Parsing)" "first_post_images env v = Inr imgs"
    using step_success [OF that, of t1] by simp
  have b: "settled_as (nextPromise s2) (trace (step env (Call tid n1 n2) s2))
        = settled_as (nextPromise s2) (trace s2) @ [Resolved imgs]
      \<and> enqueue_order (trace (step env (Call tid n1 n2) s2)) = enqueue_order (trace s2)
      \<and> fetches (trace (step env (Call tid n1 n2) s2)) = fetches (trace s2)
      \<and> requestQueue (step env (Call tid n1 n2) s2) = requestQueue s2
      \<and> tasks (step env (Call tid n1 n2) s2) = tasks s2
      \<and> activeRequests (step env (Call tid n1 n2) s2) = activeRequests s2"
    if "imageCache s2 tid = Some \<lparr>images = imgs, timestamp = t1\<rparr>"
      "n1 - t1 < cacheExpiry s2" "n2 - t1 < cacheExpiry s2"
    using step_call_hit [of s2 tid "\<lparr>images = imgs, timestamp = t1\<rparr>" n1 n2 env] that
    by simp
  show ?thesis using a b by blast
qed

theorem cache_hit_within_ttl_witness:
  "settled_as 0 (trace (run example_env
      [Call 7 0 0, TimerFires 0, FetchSettles 0 (Response 200),
       JsonSettles 0 (body_of four_html) 1000] init))
     = [Resolved [''https://forum.example/a.png'', ''https://forum.example/b.png'']]
   \<and> settled_as 1 (trace (run example_env
      [Call 7 0 0, TimerFires 0, FetchSettles 0 (Response 200),
       JsonSettles 0 (body_of four_html) 1000, Call 7 2000 2001] init))
     = [Resolved [''https://forum.example/a.png'', ''https://forum.example/b.png'']]
   \<and> fetches (trace (run example_env
      [Call 7 0 0, TimerFires 0, FetchSettles 0 (Response 200),
       JsonSettles 0 (body_of four_html) 1000, Call 7 2000 2001] init)) = [7]"
proof -
  let ?imgs = "[''https://forum.example/a.png'', ''https://forum.example/b.png'']"
  let ?v = "TopicJson (Some (PostStream (Some [Post (Some four_html)])))"
  let ?s = "run example_env [Call 7 0 0, TimerFires 0, FetchSettles 0 (Response 200)] init"
  let ?s2 = "step example_env (JsonSettles 0 (JsonValue ?v) 1000) ?s"
  have h1: "find_task 0 ?s = Some (Task 0 7 Parsing)" by code_simp
  have h2: "first_post_images example_env ?v = Inr ?imgs" by code_simp
  have v1: "settled_as 0 (trace ?s) = []" by code_simp
  have v2: "settled_as 1 (trace ?s2) = []" by code_simp
  have v3: "fetches (trace ?s2) = [7]" by code_simp
  have v4: "nextPromise ?s2 = 1" by code_simp
  have v5: "cacheExpiry ?s2 = 300000" by code_simp
  have first: "settled_as 0 (trace ?s2) = settled_as 0 (trace ?s) @ [Resolved ?imgs]
      \<and> imageCache ?s2 7 = Some \<lparr>images = ?imgs, timestamp = 1000\<rparr>"
    using cache_hit_within_ttl [of 0 ?s 7 example_env ?v ?imgs 1000] h1 h2 by blast
  then have c: "imageCache ?s2 7 = Some \<lparr>images = ?imgs, timestamp = 1000\<rparr>" by blast
  have second: "settled_as (nextPromise ?s2) (trace (step example_env (Call 7 2000 2001) ?s2))
        = settled_as (nextPromise ?s2) (trace ?s2) @ [Resolved ?imgs]
      \<and> fetches (trace (step example_env (Call 7 2000 2001) ?s2)) = fetches (trace ?s2)"
    using cache_hit_within_ttl [of 0 ?s 7 example_env ?v ?imgs 1000 ?s2 2000 2001] c v5
    by simp
  have r1: "run example_env [Call 7 0 0, TimerFires 0, FetchSettles 0 (Response 200),
       JsonSettles 0 (body_of four_html) 1000] init = ?s2"
    by (simp only: run_def foldl.simps append.simps body_of_def)
  have r2: "run example_env [Call 7 0 0, TimerFires 0, FetchSettles 0 (Response 200),
       JsonSettles 0 (body_of four_html) 1000, Call 7 2000 2001] init
       = step example_env (Call 7 2000 2001) ?s2"
    by (simp only: run_def foldl.simps append.simps body_of_def)
  show ?thesis unfolding r1 r2 using first second v1 v2 v3 v4 by simp
qed

lemma idle_has_empty_queue:
  assumes "counted s" and "busy_or_empty s" and "tasks s = []"
  shows "requestQueue s = [] \<and> activeRequests s < maxConcurrent s"
  using assms by (auto simp: counted_def busy_or_empty_def)

text \<open>
  Claim C6: every call \<open>request(id)\<close> first sweeps the cache, so that the entries left
  after the call are entries that were there before and whose age at the sweep is below
  the TTL; whatever the call delivers at once is the value of an entry for \<open>id\<close> whose
  age is below the TTL at both clock readings, so a stale entry is never returned; if
  the entry for \<open>id\<close> is stale, the call removes it and enqueues a request, and when the
  loader is idle this request's fetch is issued as soon as its timer fires; and a
  successful fetch stores the new value under \<open>id\<close> with the time of storing.
\<close>

theorem stale_entries_are_refetched:
  "(\<forall>k c. imageCache (step env (Call tid n1 n2) s) k = Some c \<longrightarrow>
       imageCache s k = Some c \<and> n1 - timestamp c < cacheExpiry s)
   \<and> (settled_as q (trace (step env (Call tid n1 n2) s)) \<noteq> settled_as q (trace s) \<longrightarrow>
        (\<exists>c. imageCache s tid = Some c \<and> n1 - timestamp c < cacheExpiry s
             \<and> n2 - timestamp c < cacheExpiry s
             \<and> settled_as q (trace (step env (Call tid n1 n2) s))
                 = settled_as q (trace s) @ [Resolved (images c)]))
   \<and> (imageCache s tid = Some e
        \<and> (cacheExpiry s \<le> n1 - timestamp e \<or> cacheExpiry s \<le> n2 - timestamp e) \<longrightarrow>
        imageCache (step env (Call tid n1 n2) s) tid = None
        \<and> enqueue_order (trace (step env (Call tid n1 n2) s))
            = enqueue_order (trace s) @ [nextPromise s])
   \<and> (tasks (run env es init) = [] \<and> imageCache (run env es init) tid = Some e
        \<and> (cacheExpiry (run env es init) \<le> n1 - timestamp e
             \<or> cacheExpiry (run env es init) \<le> n2 - timestamp e) \<longrightarrow>
        fetches (trace (run env
            (es @ [Call tid n1 n2, TimerFires (nextPromise (run env es init))]) init))
          = fetches (trace (run env es init)) @ [tid])
   \<and> (find_task p s = Some (Task p tid Parsing) \<and> first_post_images env v = Inr imgs \<longrightarrow>
        imageCache (step env (JsonSettles p (JsonValue v) now) s) tid
          = Some \<lparr>images = imgs, timestamp = now\<rparr>)"
proof -
  have sweep: "\<forall>k c. imageCache (step env (Call tid n1 n2) s) k = Some c \<longrightarrow>
       imageCache s k = Some c \<and> n1 - timestamp c < cacheExpiry s"
    by (intro allI impI, simp only: step.simps) (erule loadTopicImages_sweeps)
  have fresh: "settled_as q (trace (step env (Call tid n1 n2) s)) \<noteq> settled_as q (trace s) \<longrightarrow>
        (\<exists>c. imageCache s tid = Some c \<and> n1 - timestamp c < cacheExpiry s
             \<and> n2 - timestamp c < cacheExpiry s
             \<and> settled_as q (trace (step env (Call tid n1 n2) s))
                 = settled_as q (trace s) @ [Resolved (images c)])"
    using loadTopicImages_returns_fresh [of q tid n1 n2 s] by simp
  have stale: "imageCache (step env (Call tid n1 n2) s) tid = None
        \<and> enqueue_order (trace (step env (Call tid n1 n2) s))
            = enqueue_order (trace s) @ [nextPromise s]"
    if "imageCache s tid = Some e"
      "cacheExpiry s \<le> n1 - timestamp e \<or> cacheExpiry s \<le> n2 - timestamp e"
  proof -
    have "is_miss tid n1 n2 s" using that by (simp add: is_miss_def)
    then show ?thesis using loadTopicImages_miss_readings(1,2) by simp
  qed
  have idle: "fetches (trace (run env
            (es @ [Call tid n1 n2, TimerFires (nextPromise (run env es init))]) init))
          = fetches (trace (run env es init)) @ [tid]"
    if "tasks (run env es init) = []" "imageCache (run env es init) tid = Some e"
      "cacheExpiry (run env es init) \<le> n1 - timestamp e
       \<or> cacheExpiry (run env es init) \<le> n2 - timestamp e"
  proof -
    let ?s = "run env es init"
    have m: "is_miss tid n1 n2 ?s" using that(2,3) by (simp add: is_miss_def)
    have i: "requestQueue ?s = [] \<and> activeRequests ?s < maxConcurrent ?s"
      using idle_has_empty_queue [of ?s] counted_run [of env es] that(1) by blast
    have "fetches (trace (step env (TimerFires (nextPromise ?s)) (loadTopicImages tid n1 n2 ?s)))
            = fetches (trace ?s) @ [tid]"
      using idle_miss_fetches [OF m that(1)] i by blast
    then show ?thesis by (simp only: run_def foldl_append foldl.simps step.simps(1))
  qed
  have store: "imageCache (step env (JsonSettles p (JsonValue v) now) s) tid
          = Some \<lparr>images = imgs, timestamp = now\<rparr>"
    if "find_task p s = Some (Task p tid Parsing)" "first_post_images env v = Inr imgs"
    using step_success(2) [OF that] .
  show ?thesis
    using sweep fresh stale idle store by blast
qed

theorem stale_entries_are_refetched_witness:
  "fetches (trace (run example_env
      [Call 7 0 0, TimerFires 0, FetchSettles 0 (Response 200),
       JsonSettles 0 (body_of four_html) 1000,
       Call 7 301000 301000, TimerFires 1] init)) = [7, 7]
   \<and> map_option timestamp (imageCache (run example_env
      [Call 7 0 0, TimerFires 0, FetchSettles 0 (Response 200),
       JsonSettles 0 (body_of four_html) 1000,
       Call 7 301000 301000, TimerFires 1, FetchSettles 1 (Response 200),
       JsonSettles 1 (body_of spec_html) 302000] init) 7) = Some 302000"
proof -
  let ?es = "[Call 7 0 0, TimerFires 0, FetchSettles 0 (Response 200),
       JsonSettles 0 (body_of four_html) 1000]"
  let ?s = "run example_env ?es init"
  let ?imgs = "[''https://forum.example/a.png'', ''https://forum.example/b.png'']"
  let ?e = "\<lparr>images = ?imgs, timestamp = 1000\<rparr>"
  let ?v = "TopicJson (Some (PostStream (Some [Post (Some spec_html)])))"
  let ?t = "run example_env (?es @ [Call 7 301000 301000, TimerFires 1,
                FetchSettles 1 (Response 200)]) init"
  have h1: "tasks ?s = []" by code_simp
  have h2: "imageCache ?s 7 = Some ?e" by code_simp
  have h3: "cacheExpiry ?s \<le> 301000 - timestamp ?e" by code_simp
  have h4: "nextPromise ?s = 1" by code_simp
  have h5: "fetches (trace ?s) = [7]" by code_simp
  have h6: "find_task 1 ?t = Some (Task 1 7 Parsing)" by code_simp
  have h7: "first_post_images example_env ?v = Inr ?imgs" by code_simp
  have a: "fetches (trace (run example_env
              (?es @ [Call 7 301000 301000, TimerFires (nextPromise ?s)]) init))
            = fetches (trace ?s) @ [7]"
    using stale_entries_are_refetched
      [of example_env 7 301000 301000 ?s 0 ?e ?es 1 ?v ?imgs 302000,
       THEN conjunct2, THEN conjunct2, THEN conjunct2, THEN conjunct1] h1 h2 h3
    by (simp only: simp_thms)
  have b: "imageCache (step example_env (JsonSettles 1 (JsonValue ?v) 302000) ?t) 7
             = Some \<lparr>images = ?imgs, timestamp = 302000\<rparr>"
    using stale_entries_are_refetched
      [of example_env 7 301000 301000 ?t 0 ?e ?es 1 ?v ?imgs 302000,
       THEN conjunct2, THEN conjunct2, THEN conjunct2, THEN conjunct2] h6 h7
    by (simp only: simp_thms)
  have r: "run example_env
      [Call 7 0 0, TimerFires 0, FetchSettles 0 (Response 200),
       JsonSettles 0 (body_of four_html) 1000,
       Call 7 301000 301000, TimerFires 1, FetchSettles 1 (Response 200),
       JsonSettles 1 (body_of spec_html) 302000] init
      = step example_env (JsonSettles 1 (JsonValue ?v) 302000) ?t"
    by (simp only: run_def foldl.simps append.simps body_of_def)
  show ?thesis unfolding r using a b h4 h5 by simp
qed

subsection \<open>Only a success writes the cache\<close>

lemma cache_written_only_on_success:
  assumes "imageCache (step env e s) k = Some c" and "imageCache s k \<noteq> Some c"
  shows "\<exists>q v t imgs. e = JsonSettles q (JsonValue v) t
            \<and> find_task q s = Some (Task q k Parsing)
            \<and> first_post_images env v = Inr imgs
            \<and> c = \<lparr>images = imgs, timestamp = t\<rparr>"
proof (cases e)
  case (Call tid n1 n2)
  with assms show ?thesis using loadTopicImages_sweeps [of tid n1 n2 s k c] by simp
next
  case (TimerFires p)
  with assms show ?thesis by (simp only: step_keeps_cache(1))
next
  case (FetchSettles p r)
  with assms show ?thesis by (simp only: step_keeps_cache(2))
next
  case (JsonSettles p j now)
  show ?thesis
  proof (cases "json_fails env j")
    case True
    with assms JsonSettles show ?thesis by (simp only: step_keeps_cache(3))
  next
    case False
    then obtain v imgs where j: "j = JsonValue v" and v: "first_post_images env v = Inr imgs"
      by (auto simp: json_fails_def split: json_result.splits sum.splits)
    show ?thesis
    proof (cases "find_task p s")
      case None
      with assms JsonSettles show ?thesis by simp
    next
      case (Some t)
      obtain q tid ph where t: "t = Task q tid ph" by (cases t)
      with Some have "q = p" using find_task_promise by blast
      with Some t have ft: "find_task p s = Some (Task p tid ph)" by simp
      show ?thesis
      proof (cases ph)
        case Parsing
        with ft have ft': "find_task p s = Some (Task p tid Parsing)" by simp
        have "imageCache (step env e s)
                = (imageCache s)(tid \<mapsto> \<lparr>images = imgs, timestamp = now\<rparr>)"
          using step_json(3) [OF ft' v, of now] JsonSettles j by simp
        with assms have "k = tid \<and> c = \<lparr>images = imgs, timestamp = now\<rparr>"
          by (auto split: if_splits)
        with JsonSettles j v ft' show ?thesis by blast
      qed (use assms JsonSettles ft in simp_all)
    qed
  qed
qed

lemma find_snoc_other:
  "find P (xs @ [t]) = Some x \<Longrightarrow> x \<noteq> t \<Longrightarrow> find P xs = Some x"
  by (induction xs) (auto split: if_splits)

lemma find_filter_same: "find (\<lambda>t. f t = p) (filter (\<lambda>t. f t \<noteq> p) xs) = None"
  by (induction xs) auto

lemma find_filter_other:
  assumes "find (\<lambda>t. f t = p) (filter (\<lambda>t. f t \<noteq> p') xs) = Some x"
  shows "find (\<lambda>t. f t = p) xs = Some x"
proof (cases "p = p'")
  case True
  with assms show ?thesis by (simp add: find_filter_same)
next
  case False
  with assms show ?thesis by (induction xs) (auto split: if_splits)
qed

lemma find_task_processQueue:
  assumes "find_task p (processQueue s) = Some (Task p tid Parsing)"
  shows "find_task p s = Some (Task p tid Parsing)"
proof (cases "tasks (processQueue s) = tasks s")
  case True
  with assms show ?thesis by (simp add: find_task_def)
next
  case False
  then obtain q rest where "requestQueue s = q # rest"
    and t: "tasks (processQueue s)
              = tasks s @ [Task (settles q) (topicId q) (Delaying (requestDelay s))]"
    by (auto simp: processQueue_def split: list.splits if_splits)
  then show ?thesis
    using assms find_snoc_other [of "\<lambda>t. task_promise t = p" "tasks s"
        "Task (settles q) (topicId q) (Delaying (requestDelay s))" "Task p tid Parsing"]
    by (simp add: find_task_def)
qed

lemma find_task_settle:
  assumes "find_task p (settle p' r s) = Some (Task p tid Parsing)"
  shows "find_task p s = Some (Task p tid Parsing)"
proof -
  obtain a where a: "settle p' r s =
        processQueue ((emit a s)\<lparr>activeRequests := activeRequests s - 1,
                                 tasks := filter (\<lambda>t. task_promise t \<noteq> p') (tasks s)\<rparr>)"
    using settle_unfold by blast
  have "find_task p ((emit a s)\<lparr>activeRequests := activeRequests s - 1,
                                 tasks := filter (\<lambda>t. task_promise t \<noteq> p') (tasks s)\<rparr>)
          = Some (Task p tid Parsing)"
    using assms unfolding a by (rule find_task_processQueue)
  then show ?thesis
    using find_filter_other [of task_promise p p' "tasks s" "Task p tid Parsing"]
    by (simp add: find_task_def)
qed

lemma find_task_emit [simp]: "find_task p (emit a s) = find_task p s"
  by (simp add: find_task_def)

lemma find_task_cache [simp]: "find_task p (s\<lparr>imageCache := c\<rparr>) = find_task p s"
  by (simp add: find_task_def)

lemma find_task_limit [simp]:
  "find_task p (s\<lparr>requestDelay := d, maxConcurrent := m\<rparr>) = find_task p s"
  by (simp add: find_task_def)

lemma find_map_phase:
  "find (\<lambda>t. task_promise t = p)
        (map (\<lambda>t. if task_promise t = p' then Task p' (task_topic t) ph else t) xs)
   = (if p = p' then map_option (\<lambda>t. Task p' (task_topic t) ph) (find (\<lambda>t. task_promise t = p) xs)
      else find (\<lambda>t. task_promise t = p) xs)"
  by (induction xs) auto

lemma find_task_set_phase:
  "find_task p (set_phase p' ph s)
     = (if p = p' then map_option (\<lambda>t. Task p' (task_topic t) ph) (find_task p s)
        else find_task p s)"
  by (simp add: find_task_def set_phase_def find_map_phase)

lemma find_task_loadTopicImages:
  assumes "find_task p (loadTopicImages tid' n1 n2 s) = Some (Task p tid Parsing)"
  shows "find_task p s = Some (Task p tid Parsing)"
proof (cases "is_miss tid' n1 n2 s")
  case True
  then obtain c where "loadTopicImages tid' n1 n2 s
             = processQueue (emit (Enqueued (nextPromise s) tid')
                 (s\<lparr>imageCache := c, nextPromise := nextPromise s + 1,
                    requestQueue := requestQueue s @ [\<lparr>topicId = tid', settles = nextPromise s\<rparr>]\<rparr>))"
    using loadTopicImages_miss by blast
  with assms show ?thesis
    using find_task_processQueue [of p "emit (Enqueued (nextPromise s) tid')
                 (s\<lparr>imageCache := c, nextPromise := nextPromise s + 1,
                    requestQueue := requestQueue s @ [\<lparr>topicId = tid', settles = nextPromise s\<rparr>]\<rparr>)" tid]
    by (simp add: find_task_def)
next
  case False
  then obtain e where "imageCache s tid' = Some e" "n1 - timestamp e < cacheExpiry s"
      "n2 - timestamp e < cacheExpiry s"
    using hit_or_miss by blast
  from loadTopicImages_hit [OF this] assms show ?thesis
    by (simp add: find_task_def)
qed

lemma parsing_only_after_ok:
  "find_task p (step env e s) = Some (Task p tid Parsing) \<longrightarrow>
     find_task p s = Some (Task p tid Parsing)
     \<or> (\<exists>st. e = FetchSettles p (Response st) \<and> response_ok st)"
proof (induction rule: step_cases [where P = "\<lambda>s'.
        find_task p s' = Some (Task p tid Parsing) \<longrightarrow>
          find_task p s = Some (Task p tid Parsing)
          \<or> (\<exists>st. e = FetchSettles p (Response st) \<and> response_ok st)"])
  case same
  show ?case by simp
next
  case (call tid' n1 n2)
  show ?case using find_task_loadTopicImages by blast
next
  case (timer p' tid' d)
  show ?case
    by (cases "find_task p s") (auto simp: find_task_set_phase split: if_splits)
next
  case (ok p' tid' st)
  show ?case
  proof (cases "p = p'")
    case True
    with ok show ?thesis by blast
  next
    case False
    then show ?thesis by (simp add: find_task_set_phase)
  qed
next
  case (fail p' tid' ph err)
  show ?case
    using find_task_settle [of p p' "Inr []" "emit (ConsoleError tid' err) s" tid] by simp
next
  case (limit p' tid')
  show ?case
    using find_task_settle [of p p' "Inr []" "emit (ConsoleError tid' RateLimitExceeded)
        (s\<lparr>requestDelay := min (requestDelay s * 2) 5000, maxConcurrent := 1\<rparr>)" tid]
    by simp
next
  case (success p' tid' imgs now)
  show ?case
    using find_task_settle [of p p' "Inr imgs"
        "s\<lparr>imageCache := (imageCache s)(tid' \<mapsto> \<lparr>images = imgs, timestamp = now\<rparr>)\<rparr>" tid]
    by simp
qed

lemma step_failure_frame:
  "nextPromise (step env (FetchSettles p r) s) = nextPromise s"
  "cacheExpiry (step env (FetchSettles p r) s) = cacheExpiry s"
  "nextPromise (step env (JsonSettles p j now) s) = nextPromise s"
  "cacheExpiry (step env (JsonSettles p j now) s) = cacheExpiry s"
proof -
  show "nextPromise (step env (FetchSettles p r) s) = nextPromise s"
    by (simp add: on_response_def
             split: option.splits task.splits phase.splits fetch_result.splits)
  show "cacheExpiry (step env (FetchSettles p r) s) = cacheExpiry s"
    by (simp add: on_response_def
             split: option.splits task.splits phase.splits fetch_result.splits)
  show "nextPromise (step env (JsonSettles p j now) s) = nextPromise s"
    by (simp add: on_json_def
             split: option.splits task.splits phase.splits json_result.splits sum.splits)
  show "cacheExpiry (step env (JsonSettles p j now) s) = cacheExpiry s"
    by (simp add: on_json_def
             split: option.splits task.splits phase.splits json_result.splits sum.splits)
qed

lemma miss_after_failure:
  assumes "is_miss tid n1 n2 s" and "imageCache s' = imageCache s"
    and "cacheExpiry s' = cacheExpiry s" and "nextPromise s' = nextPromise s"
  shows "enqueue_order (trace (step env (Call tid n1 n2) s'))
           = enqueue_order (trace s') @ [nextPromise s]"
proof -
  have "is_miss tid n1 n2 s'"
    using assms by (simp add: is_miss_def split: option.splits)
  from loadTopicImages_miss_readings(1) [OF this] assms(4) show ?thesis
    by (simp only: step.simps(1))
qed

text \<open>
  Claim C10, as stated, concludes that after a failure a later \<open>request(id)\<close> issues a
  fresh fetch. Two calls for the same id before either settles are two requests; when
  the first succeeds and the second fails, the entry the first stored is still in the
  cache, and a third call within the TTL is served from it: two fetches in all, the
  third promise resolved at once, nothing enqueued for it.
\<close>

theorem fresh_fetch_counterexample:
  "errors_logged (trace (run example_env
      [Call 7 0 0, Call 7 0 0, TimerFires 0, FetchSettles 0 (Response 200),
       JsonSettles 0 (body_of four_html) 1000, TimerFires 1, FetchSettles 1 (Response 500),
       Call 7 2000 2000, TimerFires 2] init)) = [(7, HttpError 500)]
   \<and> settled_as 2 (trace (run example_env
      [Call 7 0 0, Call 7 0 0, TimerFires 0, FetchSettles 0 (Response 200),
       JsonSettles 0 (body_of four_html) 1000, TimerFires 1, FetchSettles 1 (Response 500),
       Call 7 2000 2000, TimerFires 2] init))
     = [Resolved [''https://forum.example/a.png'', ''https://forum.example/b.png'']]
   \<and> enqueue_order (trace (run example_env
      [Call 7 0 0, Call 7 0 0, TimerFires 0, FetchSettles 0 (Response 200),
       JsonSettles 0 (body_of four_html) 1000, TimerFires 1, FetchSettles 1 (Response 500),
       Call 7 2000 2000, TimerFires 2] init)) = [0, 1]
   \<and> fetches (trace (run example_env
      [Call 7 0 0, Call 7 0 0, TimerFires 0, FetchSettles 0 (Response 200),
       JsonSettles 0 (body_of four_html) 1000, TimerFires 1, FetchSettles 1 (Response 500),
       Call 7 2000 2000, TimerFires 2] init)) = [7, 7]"
  by code_simp

text \<open>
  Claim C10, amended: an event that delivers a failure of the fetch-and-settle sequence
  (a network failure, a 429 or any other non-2xx status, a rejected
  \<^verbatim>\<open>response.json()\<close>, an exception while the body is read) leaves the cache map as
  it was, and so do the timer and the arrival of a response: nothing is stored and
  nothing is removed. An entry appears in the cache only when a body that is read
  without exception is delivered to a request of that id waiting for
  \<^verbatim>\<open>response.json()\<close>, and a request waits there only after a 2xx response. So after
  the failure a later \<open>request(id)\<close> enqueues a new request, unless the cache holds an
  entry for the id, stored by another request, that is younger than the TTL.
\<close>

theorem failure_leaves_cache_unchanged:
  "(fetch_fails r \<longrightarrow> imageCache (step env (FetchSettles p r) s) = imageCache s)
   \<and> (json_fails env j \<longrightarrow> imageCache (step env (JsonSettles p j now) s) = imageCache s)
   \<and> imageCache (step env (TimerFires p) s) = imageCache s
   \<and> (imageCache (step env e s) k = Some c \<and> imageCache s k \<noteq> Some c \<longrightarrow>
        (\<exists>q v t imgs. e = JsonSettles q (JsonValue v) t
            \<and> find_task q s = Some (Task q k Parsing)
            \<and> first_post_images env v = Inr imgs
            \<and> c = \<lparr>images = imgs, timestamp = t\<rparr>))
   \<and> (find_task p (step env e s) = Some (Task p tid Parsing) \<longrightarrow>
        find_task p s = Some (Task p tid Parsing)
        \<or> (\<exists>st. e = FetchSettles p (Response st) \<and> response_ok st))
   \<and> (fetch_fails r \<and> is_miss tid n1 n2 s \<longrightarrow>
        enqueue_order (trace (step env (Call tid n1 n2) (step env (FetchSettles p r) s)))
          = enqueue_order (trace (step env (FetchSettles p r) s)) @ [nextPromise s])
   \<and> (json_fails env j \<and> is_miss tid n1 n2 s \<longrightarrow>
        enqueue_order (trace (step env (Call tid n1 n2) (step env (JsonSettles p j now) s)))
          = enqueue_order (trace (step env (JsonSettles p j now) s)) @ [nextPromise s])"
proof -
  have a: "imageCache (step env (FetchSettles p r) s) = imageCache s"
    by (rule step_keeps_cache(2))
  have b: "json_fails env j \<longrightarrow> imageCache (step env (JsonSettles p j now) s) = imageCache s"
    using step_keeps_cache(3) by blast
  have c: "imageCache (step env (TimerFires p) s) = imageCache s"
    by (rule step_keeps_cache(1))
  have d: "imageCache (step env e s) k = Some c \<and> imageCache s k \<noteq> Some c \<longrightarrow>
        (\<exists>q v t imgs. e = JsonSettles q (JsonValue v) t
            \<and> find_task q s = Some (Task q k Parsing)
            \<and> first_post_images env v = Inr imgs
            \<and> c = \<lparr>images = imgs, timestamp = t\<rparr>)"
    using cache_written_only_on_success [of env e s k c] by blast
  have f: "is_miss tid n1 n2 s \<longrightarrow>
        enqueue_order (trace (step env (Call tid n1 n2) (step env (FetchSettles p r) s)))
          = enqueue_order (trace (step env (FetchSettles p r) s)) @ [nextPromise s]"
    using miss_after_failure [of tid n1 n2 s "step env (FetchSettles p r) s" env]
      a step_failure_frame(1,2) [of env p r s]
    by blast
  have g: "json_fails env j \<and> is_miss tid n1 n2 s \<longrightarrow>
        enqueue_order (trace (step env (Call tid n1 n2) (step env (JsonSettles p j now) s)))
          = enqueue_order (trace (step env (JsonSettles p j now) s)) @ [nextPromise s]"
    using miss_after_failure [of tid n1 n2 s "step env (JsonSettles p j now) s" env]
      b step_failure_frame(3,4) [of env p j now s]
    by blast
  show ?thesis using a b c d f g parsing_only_after_ok [of p env e s tid] by blast
qed

theorem failure_leaves_cache_unchanged_witness:
  "imageCache (run example_env
       [Call 7 0 0, TimerFires 0, FetchSettles 0 (Response 429)] init) 7 = None
   \<and> enqueue_order (trace (run example_env
       [Call 7 0 0, TimerFires 0, FetchSettles 0 (Response 429), Call 7 5 5] init)) = [0, 1]"
proof -
  let ?s = "run example_env [Call 7 0 0, TimerFires 0] init"
  let ?s' = "step example_env (FetchSettles 0 (Response 429)) ?s"
  have h1: "fetch_fails (Response 429)" by code_simp
  have h2: "imageCache ?s 7 = None" by code_simp
  have h3: "enqueue_order (trace ?s') = [0]" by code_simp
  have h4: "nextPromise ?s = 1" by code_simp
  have h5: "is_miss 7 5 5 ?s" using h2 by (simp add: is_miss_def)
  have t: "(fetch_fails (Response 429) \<longrightarrow> imageCache ?s' = imageCache ?s)
     \<and> (fetch_fails (Response 429) \<and> is_miss 7 5 5 ?s \<longrightarrow>
        enqueue_order (trace (step example_env (Call 7 5 5) ?s'))
          = enqueue_order (trace ?s') @ [nextPromise ?s])"
    using failure_leaves_cache_unchanged
      [of "Response 429" example_env 0 ?s JsonRejects 0 "Call 7 5 5" 7
         "\<lparr>images = [], timestamp = 0\<rparr>" 7 5 5]
    by blast
  have r1: "run example_env [Call 7 0 0, TimerFires 0, FetchSettles 0 (Response 429)] init = ?s'"
    by (simp only: run_def foldl.simps)
  have r2: "run example_env [Call 7 0 0, TimerFires 0, FetchSettles 0 (Response 429), Call 7 5 5]
              init = step example_env (Call 7 5 5) ?s'"
    by (simp only: run_def foldl.simps)
  show ?thesis unfolding r1 r2 using t h1 h2 h3 h4 h5 by simp
qed

end
